theory Spec2Isabelle
  imports Complex_Main "HOL-Library.Multiset"
begin

section \<open>Doubles\<close>

text \<open>
  The library computes on JavaScript numbers, which are IEEE 754 binary64 values. A finite
  double is a real of the form \<open>n * 2\<^sup>e\<close> with \<open>|n| < 2\<^sup>5\<^sup>3\<close> and \<open>-1074 \<le> e\<close>, below
  \<open>2\<^sup>1\<^sup>0\<^sup>2\<^sup>4\<close> in absolute value. Every arithmetic operation computes the exact real
  result and rounds it to the nearest double, ties to the even significand; a rounded
  result of absolute value \<open>2\<^sup>1\<^sup>0\<^sup>2\<^sup>4\<close> or more is an infinity.

  \<open>binade x\<close> is the exponent of the binade of \<open>x\<close> (at least \<open>-1022\<close>, where the
  subnormal numbers begin), \<open>ulp x\<close> the distance between neighbouring doubles there, and
  \<open>rd x\<close> the nearest multiple of \<open>ulp x\<close>.
\<close>

definition binade :: "real \<Rightarrow> int" where
  "binade x = max \<lfloor>log 2 \<bar>x\<bar>\<rfloor> (- 1022)"

definition ulp :: "real \<Rightarrow> real" where
  "ulp x = 2 powr (of_int (binade x) - 52)"

definition round_even :: "real \<Rightarrow> int" where
  \<comment> \<open>the nearest integer, the even one of two equally near\<close>
  "round_even y =
     (let f = \<lfloor>y\<rfloor>; d = y - of_int f
      in if d < 1 / 2 then f else if 1 / 2 < d then f + 1 else if even f then f else f + 1)"

definition rd :: "real \<Rightarrow> real" where
  "rd x = (if x = 0 then 0 else of_int (round_even (x / ulp x)) * ulp x)"

definition is_double :: "real \<Rightarrow> bool" where
  "is_double x = (rd x = x \<and> \<bar>x\<bar> < 2 ^ 1024)"

typedef double = "{x. is_double x}"
  morphisms val dbl
  by (rule exI [of _ 0]) (simp add: is_double_def rd_def)

instantiation double :: linorder
begin

definition less_eq_double :: "double \<Rightarrow> double \<Rightarrow> bool" where
  "less_eq_double a b = (val a \<le> val b)"

definition less_double :: "double \<Rightarrow> double \<Rightarrow> bool" where
  "less_double a b = (val a < val b)"

instance
  by standard (auto simp: less_eq_double_def less_double_def val_inject)

end

section \<open>JavaScript numbers\<close>

text \<open>
  A number is a finite double or one of the three special values. There is a single zero:
  the sign of a zero is not modelled, and a division of a positive number by zero gives
  \<open>PInf\<close>. \<open>Math.sqrt\<close> and \<open>Math.exp\<close> are taken as correctly rounded.
\<close>

datatype jsnum = Num double | PInf | NInf | NaN

definition fl :: "real \<Rightarrow> jsnum" where
  \<comment> \<open>the number nearest to a real: the result of an operation whose exact value is \<open>x\<close>,
      and the value of a numeric literal\<close>
  "fl x =
     (let r = rd x
      in if 2 ^ 1024 \<le> \<bar>r\<bar> then (if 0 < r then PInf else NInf) else Num (dbl r))"

fun js_neg :: "jsnum \<Rightarrow> jsnum" where
  "js_neg (Num a) = fl (- val a)"
| "js_neg PInf = NInf"
| "js_neg NInf = PInf"
| "js_neg NaN = NaN"

fun js_add :: "jsnum \<Rightarrow> jsnum \<Rightarrow> jsnum" where
  "js_add (Num a) (Num b) = fl (val a + val b)"
| "js_add NaN _ = NaN"
| "js_add _ NaN = NaN"
| "js_add PInf NInf = NaN"
| "js_add NInf PInf = NaN"
| "js_add PInf _ = PInf"
| "js_add _ PInf = PInf"
| "js_add NInf _ = NInf"
| "js_add _ NInf = NInf"

definition js_sub :: "jsnum \<Rightarrow> jsnum \<Rightarrow> jsnum" where
  "js_sub a b = js_add a (js_neg b)"

fun js_mul :: "jsnum \<Rightarrow> jsnum \<Rightarrow> jsnum" where
  "js_mul (Num a) (Num b) = fl (val a * val b)"
| "js_mul NaN _ = NaN"
| "js_mul _ NaN = NaN"
| "js_mul (Num a) PInf = (if val a = 0 then NaN else if 0 < val a then PInf else NInf)"
| "js_mul (Num a) NInf = (if val a = 0 then NaN else if 0 < val a then NInf else PInf)"
| "js_mul PInf (Num b) = (if val b = 0 then NaN else if 0 < val b then PInf else NInf)"
| "js_mul NInf (Num b) = (if val b = 0 then NaN else if 0 < val b then NInf else PInf)"
| "js_mul PInf PInf = PInf"
| "js_mul PInf NInf = NInf"
| "js_mul NInf PInf = NInf"
| "js_mul NInf NInf = PInf"

fun js_div :: "jsnum \<Rightarrow> jsnum \<Rightarrow> jsnum" where
  "js_div (Num a) (Num b) =
     (if val b \<noteq> 0 then fl (val a / val b)
      else if val a = 0 then NaN else if 0 < val a then PInf else NInf)"
| "js_div NaN _ = NaN"
| "js_div _ NaN = NaN"
| "js_div (Num a) PInf = fl 0"
| "js_div (Num a) NInf = fl 0"
| "js_div PInf (Num b) = (if 0 \<le> val b then PInf else NInf)"
| "js_div NInf (Num b) = (if 0 \<le> val b then NInf else PInf)"
| "js_div PInf PInf = NaN"
| "js_div PInf NInf = NaN"
| "js_div NInf PInf = NaN"
| "js_div NInf NInf = NaN"

text \<open>Comparisons: every comparison with \<open>NaN\<close> is false.\<close>

fun js_lt :: "jsnum \<Rightarrow> jsnum \<Rightarrow> bool" where
  "js_lt (Num a) (Num b) = (val a < val b)"
| "js_lt NaN _ = False"
| "js_lt _ NaN = False"
| "js_lt _ NInf = False"
| "js_lt NInf _ = True"
| "js_lt PInf _ = False"
| "js_lt (Num a) PInf = True"

definition js_seq :: "jsnum \<Rightarrow> jsnum \<Rightarrow> bool" where
  \<comment> \<open>\<open>a === b\<close> on numbers\<close>
  "js_seq a b = (a \<noteq> NaN \<and> a = b)"

definition js_gt :: "jsnum \<Rightarrow> jsnum \<Rightarrow> bool" where
  "js_gt a b = js_lt b a"

definition js_le :: "jsnum \<Rightarrow> jsnum \<Rightarrow> bool" where
  "js_le a b = (js_lt a b \<or> js_seq a b)"

definition js_ge :: "jsnum \<Rightarrow> jsnum \<Rightarrow> bool" where
  "js_ge a b = (js_lt b a \<or> js_seq a b)"

fun Math_abs :: "jsnum \<Rightarrow> jsnum" where
  "Math_abs (Num a) = fl \<bar>val a\<bar>"
| "Math_abs PInf = PInf"
| "Math_abs NInf = PInf"
| "Math_abs NaN = NaN"

fun Math_sqrt :: "jsnum \<Rightarrow> jsnum" where
  "Math_sqrt (Num a) = (if val a < 0 then NaN else fl (sqrt (val a)))"
| "Math_sqrt PInf = PInf"
| "Math_sqrt NInf = NaN"
| "Math_sqrt NaN = NaN"

fun Math_exp :: "jsnum \<Rightarrow> jsnum" where
  "Math_exp (Num a) = fl (exp (val a))"
| "Math_exp PInf = PInf"
| "Math_exp NInf = fl 0"
| "Math_exp NaN = NaN"

fun Math_floor :: "jsnum \<Rightarrow> jsnum" where
  "Math_floor (Num a) = fl (of_int \<lfloor>val a\<rfloor>)"
| "Math_floor PInf = PInf"
| "Math_floor NInf = NInf"
| "Math_floor NaN = NaN"

primrec Math_pow :: "jsnum \<Rightarrow> nat \<Rightarrow> jsnum" where
  \<comment> \<open>\<open>Math.pow(x, k)\<close> for a literal exponent \<open>k = 0, 1, 2, ...\<close>\<close>
  "Math_pow x 0 = fl 1"
| "Math_pow x (Suc k) = js_mul x (Math_pow x k)"

fun Math_max2 :: "jsnum \<Rightarrow> jsnum \<Rightarrow> jsnum" where
  "Math_max2 NaN _ = NaN"
| "Math_max2 _ NaN = NaN"
| "Math_max2 a b = (if js_lt a b then b else a)"

fun Math_min2 :: "jsnum \<Rightarrow> jsnum \<Rightarrow> jsnum" where
  "Math_min2 NaN _ = NaN"
| "Math_min2 _ NaN = NaN"
| "Math_min2 a b = (if js_lt b a then b else a)"

definition Math_max :: "jsnum list \<Rightarrow> jsnum" where
  \<comment> \<open>\<open>Math.max(...xs)\<close>; \<open>-Infinity\<close> on no arguments\<close>
  "Math_max xs = foldl Math_max2 NInf xs"

definition Math_min :: "jsnum list \<Rightarrow> jsnum" where
  "Math_min xs = foldl Math_min2 PInf xs"

section \<open>Arrays\<close>

text \<open>
  An array of numbers is a list. A read outside the array gives \<open>undefined\<close>, which
  is \<open>None\<close> here; in arithmetic \<open>undefined\<close> converts to \<open>NaN\<close>. Lengths and loop
  counters are natural numbers; where the source computes with them they become numbers
  by \<open>fl\<close>.
\<close>

definition js_at :: "'a list \<Rightarrow> nat \<Rightarrow> 'a option" where
  "js_at xs i = (if i < length xs then Some (xs ! i) else None)"

definition js_at_num :: "'a list \<Rightarrow> jsnum \<Rightarrow> 'a option" where
  \<comment> \<open>\<open>xs[k]\<close> for a computed number \<open>k\<close>: only a non-negative integer below the length
      names an element\<close>
  "js_at_num xs k =
     (case k of
        Num r \<Rightarrow> if 0 \<le> val r \<and> of_int \<lfloor>val r\<rfloor> = val r
                 then js_at xs (nat \<lfloor>val r\<rfloor>) else None
      | _ \<Rightarrow> None)"

definition to_number :: "jsnum option \<Rightarrow> jsnum" where
  "to_number v = (case v of None \<Rightarrow> NaN | Some x \<Rightarrow> x)"

definition slice :: "nat \<Rightarrow> nat \<Rightarrow> 'a list \<Rightarrow> 'a list" where
  \<comment> \<open>\<open>xs.slice(a, b)\<close> for non-negative integers \<open>a\<close>, \<open>b\<close>\<close>
  "slice a b xs = take (b - a) (drop a xs)"

definition reduce_add :: "jsnum list \<Rightarrow> jsnum" where
  \<comment> \<open>\<open>xs.reduce((a, b) => a + b, 0)\<close>\<close>
  "reduce_add xs = foldl (\<lambda>a b. js_add a b) (fl 0) xs"

section \<open>Indicators\<close>

subsection \<open>Simple moving average\<close>

definition sma :: "jsnum list \<Rightarrow> nat \<Rightarrow> jsnum list option" where
  \<comment> \<open>\<open>None\<close> is the \<open>null\<close> result\<close>
  "sma data period =
     (if length data < period then None
      else Some (fold (\<lambda>i result.
                   let window = slice (i - period) i data;
                       sum = reduce_add window
                   in result @ [js_div sum (fl (real period))])
                 [period ..< Suc (length data)] []))"

subsection \<open>Relative strength index\<close>

definition rsi_diff :: "jsnum list \<Rightarrow> nat \<Rightarrow> jsnum" where
  \<comment> \<open>\<open>data[i] - data[i - 1]\<close>\<close>
  "rsi_diff data i = js_sub (to_number (js_at data i)) (to_number (js_at data (i - 1)))"

definition rsi_seed_step :: "jsnum list \<Rightarrow> nat \<Rightarrow> jsnum \<times> jsnum \<Rightarrow> jsnum \<times> jsnum" where
  \<comment> \<open>body of the first loop, on the pair \<open>(gains, losses)\<close>\<close>
  "rsi_seed_step data i = (\<lambda>(gains, losses).
     let diff = rsi_diff data i
     in if js_ge diff (fl 0) then (js_add gains diff, losses)
        else (gains, js_sub losses (Math_abs diff)))"

definition rsi_smooth_step ::
    "jsnum list \<Rightarrow> nat \<Rightarrow> nat \<Rightarrow> jsnum \<times> jsnum \<Rightarrow> jsnum \<times> jsnum" where
  \<comment> \<open>body of the second loop, on the pair \<open>(avgGain, avgLoss)\<close>\<close>
  "rsi_smooth_step data period i = (\<lambda>(avgGain, avgLoss).
     let diff = rsi_diff data i;
         currentGain = (if js_ge diff (fl 0) then diff else fl 0);
         currentLoss = (if js_lt diff (fl 0) then Math_abs diff else fl 0)
     in (js_div (js_add (js_mul avgGain (js_sub (fl (real period)) (fl 1))) currentGain)
           (fl (real period)),
         js_div (js_add (js_mul avgLoss (js_sub (fl (real period)) (fl 1))) currentLoss)
           (fl (real period))))"

definition rsi :: "jsnum list \<Rightarrow> nat \<Rightarrow> jsnum" where
  "rsi data period =
     (if length data \<le> period then fl 50
      else
        let (gains, losses) = fold (rsi_seed_step data) [1 ..< Suc period] (fl 0, fl 0);
            avgGain0 = js_div gains (fl (real period));
            avgLoss0 = js_div losses (fl (real period));
            (avgGain, avgLoss) =
               fold (rsi_smooth_step data period) [period + 1 ..< length data]
                 (avgGain0, avgLoss0)
        in if js_seq avgLoss (fl 0) then fl 100
           else let rs = js_div avgGain avgLoss
                in js_sub (fl 100) (js_div (fl 100) (js_add (fl 1) rs)))"

subsection \<open>Bollinger bands\<close>

record band =
  middle :: jsnum
  upper :: jsnum
  lower :: jsnum

definition band_at :: "jsnum list \<Rightarrow> nat \<Rightarrow> jsnum \<Rightarrow> jsnum \<Rightarrow> nat \<Rightarrow> band" where
  \<comment> \<open>the callback of \<open>smaArr.map\<close>, at the element \<open>m\<close> with index \<open>idx\<close>\<close>
  "band_at data period stdDevMult m idx =
     (let window = slice idx (idx + period) data;
          variance = js_div (foldl (\<lambda>a b. js_add a (Math_pow (js_sub b m) 2)) (fl 0) window)
                       (fl (real period));
          sd = Math_sqrt variance
      in \<lparr>middle = m,
          upper = js_add m (js_mul sd stdDevMult),
          lower = js_sub m (js_mul sd stdDevMult)\<rparr>)"

definition bollingerBands :: "jsnum list \<Rightarrow> nat \<Rightarrow> jsnum \<Rightarrow> band list option" where
  "bollingerBands data period stdDevMult =
     (case sma data period of
        None \<Rightarrow> None
      | Some smaArr \<Rightarrow>
          Some (map (\<lambda>(m, idx). band_at data period stdDevMult m idx)
                  (zip smaArr [0 ..< length smaArr])))"

section \<open>Sorting with a comparator\<close>

text \<open>
  \<open>xs.sort(cmp)\<close> is a stable sort: \<open>x\<close> is placed after \<open>y\<close> when \<open>cmp(x, y) > 0\<close>;
  a result of the comparator that is \<open>NaN\<close> counts as 0. The numeric sorts of the library
  all use \<open>(a, b) => a - b\<close>. On an array without \<open>NaN\<close> that comparator is consistent,
  and every engine returns the ascending order, as the insertion below does. On an array
  with a \<open>NaN\<close> element it is not, and the order is left to the engine; the properties
  proved below sort arrays without \<open>NaN\<close> only.
\<close>

fun insert_by :: "('a \<Rightarrow> 'a \<Rightarrow> jsnum) \<Rightarrow> 'a \<Rightarrow> 'a list \<Rightarrow> 'a list" where
  "insert_by cmp x [] = [x]"
| "insert_by cmp x (y # ys) =
     (if js_gt (cmp x y) (fl 0) then y # insert_by cmp x ys else x # y # ys)"

definition sort_by :: "('a \<Rightarrow> 'a \<Rightarrow> jsnum) \<Rightarrow> 'a list \<Rightarrow> 'a list" where
  "sort_by cmp xs = foldr (insert_by cmp) xs []"

definition sort_ascending :: "jsnum list \<Rightarrow> jsnum list" where
  \<comment> \<open>\<open>.sort((a, b) => a - b)\<close>\<close>
  "sort_ascending xs = sort_by (\<lambda>a b. js_sub a b) xs"

section \<open>Percentile\<close>

definition getPercentile :: "jsnum list \<Rightarrow> jsnum \<Rightarrow> jsnum option" where
  \<comment> \<open>\<open>_getPercentile\<close>; \<open>None\<close> is \<open>undefined\<close>\<close>
  "getPercentile arr p =
     (let sorted = sort_ascending arr;
          pos = js_mul (js_sub (fl (real (length sorted))) (fl 1)) p;
          base = Math_floor pos;
          rest = js_sub pos base
      in if js_at_num sorted (js_add base (fl 1)) \<noteq> None
         then Some (js_add (to_number (js_at_num sorted base))
                      (js_mul rest
                         (js_sub (to_number (js_at_num sorted (js_add base (fl 1))))
                                 (to_number (js_at_num sorted base)))))
         else js_at_num sorted base)"

section \<open>Gini coefficient\<close>

definition gini_step :: "nat \<Rightarrow> jsnum list \<Rightarrow> nat \<Rightarrow> jsnum \<times> jsnum \<Rightarrow> jsnum \<times> jsnum" where
  \<comment> \<open>loop body, on the pair \<open>(sumNom, sumDen)\<close>\<close>
  "gini_step n sorted_arr i = (\<lambda>(sumNom, sumDen).
     (js_add sumNom (js_mul (js_sub (js_add (fl (real n)) (fl 1)) (fl (real i)))
                             (to_number (js_at sorted_arr (i - 1)))),
      js_add sumDen (to_number (js_at sorted_arr (i - 1)))))"

definition gini_of_sorted :: "nat \<Rightarrow> jsnum list \<Rightarrow> jsnum" where
  \<comment> \<open>the loop and the final expression, from the sorted copy\<close>
  "gini_of_sorted n sorted_arr =
     (let (sumNom, sumDen) = fold (gini_step n sorted_arr) [1 ..< Suc n] (fl 0, fl 0)
      in js_div (js_sub (js_add (fl (real n)) (fl 1)) (js_mul (fl 2) (js_div sumNom sumDen)))
           (fl (real n)))"

definition calculateGini :: "jsnum list \<Rightarrow> jsnum" where
  "calculateGini wealthArr =
     (let n = length wealthArr
      in if n < 2 then fl 0
         else let sorted = sort_ascending wealthArr
              in gini_of_sorted n sorted)"

subsection \<open>The same routine on a store of arrays\<close>

text \<open>
  Arrays are objects: \<open>sort\<close> reorders the array it is called on. The store maps an
  address to the array that lives there; \<open>[...a]\<close> allocates a new array.
\<close>

record heap =
  arrays :: "nat \<Rightarrow> jsnum list option"
  next_addr :: nat

definition deref :: "heap \<Rightarrow> nat \<Rightarrow> jsnum list" where
  "deref h a = (case arrays h a of Some xs \<Rightarrow> xs | None \<Rightarrow> [])"

definition spread_copy :: "heap \<Rightarrow> nat \<Rightarrow> nat \<times> heap" where
  \<comment> \<open>\<open>[...a]\<close>\<close>
  "spread_copy h a =
     (next_addr h,
      h\<lparr>arrays := (arrays h)(next_addr h \<mapsto> deref h a), next_addr := Suc (next_addr h)\<rparr>)"

definition sort_in_place :: "heap \<Rightarrow> nat \<Rightarrow> nat \<times> heap" where
  \<comment> \<open>\<open>a.sort((x, y) => x - y)\<close>: reorders the array at \<open>a\<close> and returns \<open>a\<close>\<close>
  "sort_in_place h a = (a, h\<lparr>arrays := (arrays h)(a \<mapsto> sort_ascending (deref h a))\<rparr>)"

definition calculateGini_h :: "heap \<Rightarrow> nat \<Rightarrow> jsnum \<times> heap" where
  "calculateGini_h h wealthArr =
     (let n = length (deref h wealthArr)
      in if n < 2 then (fl 0, h)
         else let (c, h1) = spread_copy h wealthArr;
                  (sorted, h2) = sort_in_place h1 c
              in (gini_of_sorted n (deref h2 sorted), h2))"

section \<open>Regression\<close>

datatype js_error = TypeError

record prediction =
  nextValue :: jsnum
  confidence :: string

definition linear_step ::
    "jsnum list \<Rightarrow> nat \<Rightarrow> jsnum \<times> jsnum \<times> jsnum \<times> jsnum \<Rightarrow> jsnum \<times> jsnum \<times> jsnum \<times> jsnum" where
  \<comment> \<open>loop body, on \<open>(sumX, sumY, sumXY, sumXX)\<close>\<close>
  "linear_step data i = (\<lambda>(sumX, sumY, sumXY, sumXX).
     (js_add sumX (fl (real i)),
      js_add sumY (to_number (js_at data i)),
      js_add sumXY (js_mul (fl (real i)) (to_number (js_at data i))),
      js_add sumXX (js_mul (fl (real i)) (fl (real i)))))"

definition linearPredict :: "jsnum list \<Rightarrow> js_error + prediction" where
  \<comment> \<open>a call throws (\<open>Inl\<close>) or returns (\<open>Inr\<close>); the body has no \<open>throw\<close>\<close>
  "linearPredict data =
     (let n = length data;
          (sumX, sumY, sumXY, sumXX) =
             fold (linear_step data) [0 ..< n] (fl 0, fl 0, fl 0, fl 0);
          slope = js_div (js_sub (js_mul (fl (real n)) sumXY) (js_mul sumX sumY))
                         (js_sub (js_mul (fl (real n)) sumXX) (js_mul sumX sumX));
          intercept = js_div (js_sub sumY (js_mul slope sumX)) (fl (real n))
      in Inr \<lparr>nextValue = js_add (js_mul slope (fl (real n))) intercept,
              confidence = (if js_gt (Math_abs slope) (fl (1 / 10))
                            then ''HIGH_TREND'' else ''STAGNANT'')\<rparr>)"

section \<open>Randomized routines\<close>

text \<open>
  \<open>Math.random()\<close> reads and advances the generator of the runtime. The state of the
  generator is the sequence of the doubles its future calls return.
\<close>

type_synonym rng = "nat \<Rightarrow> double"

definition Math_random :: "rng \<Rightarrow> jsnum \<times> rng" where
  "Math_random g = (Num (g 0), \<lambda>k. g (Suc k))"

subsection \<open>Monte Carlo\<close>

record monte_carlo =
  averageEndPrice :: jsnum
  maxPotential :: jsnum
  minPotential :: jsnum
  probabilityOfLoss :: "jsnum \<times> string"
    \<comment> \<open>the number and the suffix of the string \<open>number + "%"\<close>\<close>

definition mc_day :: "jsnum \<Rightarrow> nat \<Rightarrow> jsnum \<times> rng \<Rightarrow> jsnum \<times> rng" where
  \<comment> \<open>body of the inner loop, on \<open>price\<close> and the generator\<close>
  "mc_day volatility d = (\<lambda>(price, g).
     let (u, g') = Math_random g;
         change = js_add (fl 1) (js_mul (js_mul (js_sub u (fl (1 / 2))) (fl 2)) volatility)
     in (js_mul price change, g'))"

definition mc_trial ::
    "jsnum \<Rightarrow> nat \<Rightarrow> jsnum \<Rightarrow> nat \<Rightarrow> jsnum list \<times> rng \<Rightarrow> jsnum list \<times> rng" where
  \<comment> \<open>body of the outer loop, on \<open>endPrices\<close> and the generator\<close>
  "mc_trial startPrice days volatility i = (\<lambda>(endPrices, g).
     let (price, g') = fold (mc_day volatility) [0 ..< days] (startPrice, g)
     in (endPrices @ [price], g'))"

definition reduce_add1 :: "jsnum list \<Rightarrow> js_error + jsnum" where
  \<comment> \<open>\<open>xs.reduce((a, b) => a + b)\<close>: a TypeError on an empty array\<close>
  "reduce_add1 xs =
     (case xs of [] \<Rightarrow> Inl TypeError | x # ys \<Rightarrow> Inr (foldl (\<lambda>a b. js_add a b) x ys))"

definition runMonteCarlo ::
    "jsnum \<Rightarrow> nat \<Rightarrow> jsnum \<Rightarrow> nat \<Rightarrow> rng \<Rightarrow> (js_error + monte_carlo) \<times> rng" where
  "runMonteCarlo startPrice days volatility simulations g =
     (let (endPrices, g') =
            fold (mc_trial startPrice days volatility) [0 ..< simulations] ([], g)
      in (case reduce_add1 endPrices of
            Inl e \<Rightarrow> Inl e
          | Inr s \<Rightarrow>
              Inr \<lparr>averageEndPrice = js_div s (fl (real simulations)),
                   maxPotential = Math_max endPrices,
                   minPotential = Math_min endPrices,
                   probabilityOfLoss =
                     (js_mul (js_div (fl (real (length (filter (\<lambda>p. js_lt p startPrice)
                                                          endPrices))))
                                     (fl (real simulations)))
                             (fl 100), ''%'')\<rparr>,
          g'))"

subsection \<open>Geometric Brownian motion\<close>

definition gbm_step ::
    "jsnum \<Rightarrow> jsnum \<Rightarrow> jsnum \<Rightarrow> nat \<Rightarrow> jsnum list \<times> jsnum \<times> rng \<Rightarrow> jsnum list \<times> jsnum \<times> rng" where
  \<comment> \<open>loop body, on \<open>path\<close>, \<open>currentS\<close> and the generator\<close>
  "gbm_step mu sigma dt i = (\<lambda>(path, currentS, g).
     let drift = js_mul (js_sub mu (js_mul (js_mul (fl (1 / 2)) sigma) sigma)) dt;
         (u, g') = Math_random g;
         diffusion = js_mul (js_mul sigma (Math_sqrt dt)) (js_sub (js_mul u (fl 2)) (fl 1));
         currentS' = js_mul currentS (Math_exp (js_add drift diffusion))
     in (path @ [currentS'], currentS', g'))"

definition gbmPath ::
    "jsnum \<Rightarrow> jsnum \<Rightarrow> jsnum \<Rightarrow> jsnum \<Rightarrow> nat \<Rightarrow> rng \<Rightarrow> jsnum list \<times> rng" where
  "gbmPath S0 mu sigma T steps g =
     (let dt = js_div T (fl (real steps));
          (path, currentS, g') = fold (gbm_step mu sigma dt) [0 ..< steps] ([S0], S0, g)
      in (path, g'))"

section \<open>Reference notions\<close>

text \<open>
  The arithmetic mean of a finite series of reals, as the specification words it. It is
  used on non-empty windows only.
\<close>

definition mean_spec :: "real list \<Rightarrow> real" where
  "mean_spec xs = sum_list xs / real (length xs)"

subsection \<open>Outcome of a call\<close>

definition throws :: "js_error + 'a \<Rightarrow> bool" where
  \<comment> \<open>the call ended with an exception\<close>
  "throws r = (case r of Inl e \<Rightarrow> True | Inr v \<Rightarrow> False)"

subsection \<open>Concrete values, stores and generators\<close>

definition huge :: real where
  \<comment> \<open>the largest power of two among the doubles: twice it is not a finite number\<close>
  "huge = 2 ^ 1023"

definition big :: real where
  \<comment> \<open>the first integer whose successor is not a double\<close>
  "big = 2 ^ 53"

definition heap_example :: heap where
  \<comment> \<open>a store with the single array \<open>[3, 1, 2]\<close>, at address 0\<close>
  "heap_example = \<lparr>arrays = [0 \<mapsto> map fl [3, 1, 2]], next_addr = 1\<rparr>"

definition rng_const :: "real \<Rightarrow> rng" where
  \<comment> \<open>a generator that returns the double \<open>u\<close> on every call\<close>
  "rng_const u = (\<lambda>k. dbl u)"

definition rng_then :: "real \<Rightarrow> rng \<Rightarrow> rng" where
  \<comment> \<open>a generator that returns the double \<open>u\<close> on its next call and continues as \<open>g\<close>\<close>
  "rng_then u g = (\<lambda>k. case k of 0 \<Rightarrow> dbl u | Suc j \<Rightarrow> g j)"

subsection \<open>The order of the numbers\<close>

text \<open>
  The place of a number on the line, the infinities at its two ends. It is used on numbers
  other than \<open>NaN\<close>, which \<open>sort_key level\<close> puts in ascending order.
\<close>

definition level :: "jsnum \<Rightarrow> real" where
  "level x = (case x of Num d \<Rightarrow> val d | PInf \<Rightarrow> 2 * huge | NInf \<Rightarrow> - (2 * huge) | NaN \<Rightarrow> 0)"

definition js_isFinite :: "jsnum \<Rightarrow> bool" where
  \<comment> \<open>the number is neither an infinity nor \<open>NaN\<close>\<close>
  "js_isFinite x = (case x of Num d \<Rightarrow> True | _ \<Rightarrow> False)"

section \<open>Properties of the rounding\<close>

subsection \<open>Rounding\<close>

lemma round_even_bounds: "\<lfloor>y\<rfloor> \<le> round_even y \<and> round_even y \<le> \<lfloor>y\<rfloor> + 1"
  by (simp add: round_even_def Let_def)

lemma round_even_of_int: "round_even (of_int n) = n"
  by (simp add: round_even_def)

lemma round_even_zero: "round_even 0 = 0"
  by (simp add: round_even_def)

lemma round_even_mono: "y \<le> z \<Longrightarrow> round_even y \<le> round_even z"
proof -
  assume le: "y \<le> z"
  then have f: "\<lfloor>y\<rfloor> \<le> \<lfloor>z\<rfloor>" by (rule floor_mono)
  show ?thesis
  proof (cases "\<lfloor>y\<rfloor> = \<lfloor>z\<rfloor>")
    case True
    with le show ?thesis
      by (auto simp: round_even_def Let_def)
  next
    case False
    with f have "\<lfloor>y\<rfloor> + 1 \<le> \<lfloor>z\<rfloor>" by simp
    with round_even_bounds [of y] round_even_bounds [of z] show ?thesis by linarith
  qed
qed

lemma round_even_minus: "round_even (- y) = - round_even y"
proof (cases "of_int \<lfloor>y\<rfloor> = y")
  case True
  then obtain n where "y = of_int n" by metis
  then show ?thesis
    by (simp add: round_even_of_int flip: of_int_minus)
next
  case False
  then have c: "\<lceil>y\<rceil> = \<lfloor>y\<rfloor> + 1"
    by (simp add: ceiling_altdef)
  have fl: "\<lfloor>- y\<rfloor> = - \<lfloor>y\<rfloor> - 1"
    by (simp add: floor_minus c)
  show ?thesis
    unfolding round_even_def Let_def fl using False
    by (auto simp: field_simps)
qed

lemma ulp_pos: "0 < ulp x"
  by (simp add: ulp_def)

lemma binade_minus: "binade (- x) = binade x"
  by (simp add: binade_def)

lemma ulp_minus: "ulp (- x) = ulp x"
  by (simp add: ulp_def binade_minus)

lemma rd_minus: "rd (- x) = - rd x"
  by (simp add: rd_def ulp_minus round_even_minus)

lemma rd_zero: "rd 0 = 0"
  by (simp add: rd_def)

lemma binade_ge: "- 1022 \<le> binade x"
  by (simp add: binade_def)

lemma abs_less_binade: "x \<noteq> 0 \<Longrightarrow> \<bar>x\<bar> < 2 powr (of_int (binade x) + 1)"
proof -
  assume "x \<noteq> 0"
  then have pos: "0 < \<bar>x\<bar>" by simp
  have "\<bar>x\<bar> < 2 powr (of_int \<lfloor>log 2 \<bar>x\<bar>\<rfloor> + 1)"
    using pos floor_log_eq_powr_iff [of "\<bar>x\<bar>" 2 "\<lfloor>log 2 \<bar>x\<bar>\<rfloor>"] by simp
  also have "\<dots> \<le> 2 powr (of_int (binade x) + 1)"
    by (simp add: binade_def)
  finally show ?thesis .
qed

lemma binade_le_abs:
  "x \<noteq> 0 \<Longrightarrow> - 1022 \<le> \<lfloor>log 2 \<bar>x\<bar>\<rfloor> \<Longrightarrow> 2 powr of_int (binade x) \<le> \<bar>x\<bar>"
proof -
  assume "x \<noteq> 0" and n: "- 1022 \<le> \<lfloor>log 2 \<bar>x\<bar>\<rfloor>"
  then have pos: "0 < \<bar>x\<bar>" by simp
  have "binade x = \<lfloor>log 2 \<bar>x\<bar>\<rfloor>" using n by (simp add: binade_def)
  then show ?thesis
    using pos floor_log_eq_powr_iff [of "\<bar>x\<bar>" 2 "\<lfloor>log 2 \<bar>x\<bar>\<rfloor>"] by simp
qed

lemma scaled_less: "x \<noteq> 0 \<Longrightarrow> \<bar>x\<bar> / ulp x < 2 ^ 53"
proof -
  assume "x \<noteq> 0"
  from abs_less_binade [OF this]
  have "\<bar>x\<bar> < 2 powr (of_int (binade x) - 52 + 53)" by (simp add: add.commute)
  also have "\<dots> = ulp x * 2 ^ 53"
    unfolding powr_add ulp_def by (simp add: powr_realpow [of 2 53, simplified])
  finally show ?thesis
    using ulp_pos [of x] by (simp add: field_simps)
qed

lemma scaled_ge:
  "x \<noteq> 0 \<Longrightarrow> - 1022 \<le> \<lfloor>log 2 \<bar>x\<bar>\<rfloor> \<Longrightarrow> 2 ^ 52 \<le> \<bar>x\<bar> / ulp x"
proof -
  assume a: "x \<noteq> 0" "- 1022 \<le> \<lfloor>log 2 \<bar>x\<bar>\<rfloor>"
  have "ulp x * 2 ^ 52 = 2 powr (of_int (binade x) - 52 + 52)"
    unfolding powr_add ulp_def by (simp add: powr_realpow [of 2 52, simplified])
  also have "\<dots> \<le> \<bar>x\<bar>"
    using binade_le_abs [OF a] by simp
  finally show ?thesis
    using ulp_pos [of x] by (simp add: field_simps)
qed

lemma round_even_abs_le: "x \<noteq> 0 \<Longrightarrow> \<bar>round_even (x / ulp x)\<bar> \<le> 2 ^ 53"
proof -
  assume nz: "x \<noteq> 0"
  have a: "\<bar>x / ulp x\<bar> = \<bar>x\<bar> / ulp x"
    using ulp_pos [of x] by (simp add: abs_divide)
  have "\<bar>x / ulp x\<bar> < 2 ^ 53"
    unfolding a by (rule scaled_less [OF nz])
  then have "x / ulp x \<le> 2 ^ 53" and "- (2 ^ 53) \<le> x / ulp x"
    by linarith+
  then have "x / ulp x \<le> of_int (2 ^ 53)" and "of_int (- (2 ^ 53)) \<le> x / ulp x"
    by simp_all
  then have "round_even (x / ulp x) \<le> 2 ^ 53" and "- (2 ^ 53) \<le> round_even (x / ulp x)"
    using round_even_mono [of "x / ulp x" "of_int (2 ^ 53)"]
      round_even_mono [of "of_int (- (2 ^ 53))" "x / ulp x"]
    by (simp_all only: round_even_of_int)
  then show ?thesis by simp
qed

lemma rd_exact:
  assumes x: "x = of_int m * 2 powr of_int k" and m: "\<bar>m\<bar> < 2 ^ 53" and k: "- 1074 \<le> k"
  shows "rd x = x"
proof (cases "m = 0")
  case True
  then show ?thesis by (simp add: x rd_def)
next
  case False
  have p: "0 < (2::real) powr of_int k" by simp
  from False have nz: "x \<noteq> 0" by (simp add: x)
  have absx: "\<bar>x\<bar> = of_int \<bar>m\<bar> * 2 powr of_int k"
    by (simp add: x abs_mult)
  have "\<bar>x\<bar> < 2 ^ 53 * 2 powr of_int k"
    unfolding absx using m p by (simp add: of_int_less_iff [of "\<bar>m\<bar>" "2 ^ 53", simplified] del: of_int_abs)
  also have "\<dots> = 2 powr (of_int (k + 52) + 1)"
    by (simp add: powr_add powr_realpow [of 2 53, simplified])
  finally have "log 2 \<bar>x\<bar> < of_int (k + 52) + 1"
    using nz by (simp add: log_less_iff)
  then have "\<lfloor>log 2 \<bar>x\<bar>\<rfloor> \<le> k + 52"
    by (simp add: floor_le_iff)
  with k have e: "binade x \<le> k + 52"
    by (simp add: binade_def)
  define j where "j = nat (k + 52 - binade x)"
  define u where "u = ulp x"
  have u_pos: "0 < u" by (simp add: u_def ulp_pos)
  have kj: "of_int k = (of_int (binade x) - 52) + real j"
    using e by (simp add: j_def)
  have "2 powr of_int k = 2 powr ((of_int (binade x) - 52) + real j)"
    by (simp only: kj)
  also have "\<dots> = u * 2 ^ j"
    by (simp add: powr_add powr_realpow u_def ulp_def)
  finally have pk: "2 powr of_int k = u * 2 ^ j" .
  have xu: "x = of_int (m * 2 ^ j) * u"
    by (simp add: x pk)
  have sc: "x / u = of_int (m * 2 ^ j)"
    using u_pos by (subst xu) simp
  have "rd x = of_int (round_even (x / u)) * u"
    using nz by (simp add: rd_def u_def)
  also have "\<dots> = of_int (m * 2 ^ j) * u"
    by (simp only: sc round_even_of_int)
  also have "\<dots> = x"
    by (rule xu [symmetric])
  finally show ?thesis .
qed

lemma ulp_eq: "ulp x = 2 powr of_int (binade x - 52)"
  by (simp add: ulp_def)

lemma ulp_times_2_53: "2 ^ 53 * ulp x = 2 powr of_int (binade x + 1)"
proof -
  have "2 powr of_int (binade x + 1) = 2 powr (real 53 + (of_int (binade x) - 52))"
    by (simp add: algebra_simps)
  also have "\<dots> = 2 ^ 53 * ulp x"
    unfolding powr_add by (simp add: powr_realpow ulp_def)
  finally show ?thesis by simp
qed

lemma ulp_times_2_52: "2 ^ 52 * ulp x = 2 powr of_int (binade x)"
proof -
  have "2 powr of_int (binade x) = 2 powr (real 52 + (of_int (binade x) - 52))"
    by (simp add: algebra_simps)
  also have "\<dots> = 2 ^ 52 * ulp x"
    unfolding powr_add by (simp add: powr_realpow ulp_def)
  finally show ?thesis by simp
qed

lemma rd_rd: "rd (rd x) = rd x"
proof (cases "x = 0")
  case True
  then show ?thesis by (simp add: rd_def)
next
  case False
  define n where "n = round_even (x / ulp x)"
  have r: "rd x = of_int n * ulp x"
    using False by (simp add: rd_def n_def)
  have n: "\<bar>n\<bar> \<le> 2 ^ 53"
    unfolding n_def by (rule round_even_abs_le [OF False])
  have k: "- 1074 \<le> binade x - 52"
    using binade_ge [of x] by simp
  show ?thesis
  proof (cases "\<bar>n\<bar> < 2 ^ 53")
    case True
    show ?thesis
    proof (rule rd_exact [of _ n "binade x - 52"])
      show "rd x = of_int n * 2 powr of_int (binade x - 52)"
        by (simp only: r ulp_eq)
    qed (rule True, rule k)
  next
    case False
    with n have "n = 2 ^ 53 \<or> n = - (2 ^ 53)" by linarith
    then have "rd x = of_int (if n = 2 ^ 53 then 1 else - 1) * 2 powr of_int (binade x + 1)"
      unfolding r ulp_times_2_53 [symmetric] by auto
    then show ?thesis
      using k by (intro rd_exact [of _ "if n = 2 ^ 53 then 1 else - 1" "binade x + 1"]) auto
  qed
qed

lemma rd_nonneg: "0 \<le> x \<Longrightarrow> 0 \<le> rd x"
proof -
  assume "0 \<le> x"
  then have "0 \<le> x / ulp x"
    using ulp_pos [of x] by simp
  then have "round_even 0 \<le> round_even (x / ulp x)"
    by (rule round_even_mono)
  then show ?thesis
    using ulp_pos [of x] by (simp add: rd_def round_even_zero)
qed

lemma binade_mono: "0 < x \<Longrightarrow> x \<le> y \<Longrightarrow> binade x \<le> binade y"
proof -
  assume "0 < x" "x \<le> y"
  then have "log 2 \<bar>x\<bar> \<le> log 2 \<bar>y\<bar>" by simp
  then have "\<lfloor>log 2 \<bar>x\<bar>\<rfloor> \<le> \<lfloor>log 2 \<bar>y\<bar>\<rfloor>" by (rule floor_mono)
  then show ?thesis by (simp add: binade_def)
qed

lemma rd_mono_pos:
  assumes "0 < x" and "x \<le> y"
  shows "rd x \<le> rd y"
proof (cases "binade x = binade y")
  case True
  then have u: "ulp x = ulp y" by (simp add: ulp_def)
  have "x / ulp y \<le> y / ulp y"
    using assms ulp_pos [of y] by (simp add: divide_right_mono)
  then have "round_even (x / ulp y) \<le> round_even (y / ulp y)"
    by (rule round_even_mono)
  then have "of_int (round_even (x / ulp y)) * ulp y \<le> of_int (round_even (y / ulp y)) * ulp y"
    using ulp_pos [of y] by simp
  then show ?thesis
    using assms by (simp add: rd_def u)
next
  case False
  with binade_mono [OF assms] have lt: "binade x < binade y" by simp
  have nzx: "x \<noteq> 0" and nzy: "y \<noteq> 0" using assms by simp_all
  have "round_even (x / ulp x) \<le> 2 ^ 53"
    using round_even_abs_le [OF nzx] by simp
  then have "of_int (round_even (x / ulp x)) * ulp x \<le> 2 ^ 53 * ulp x"
    using ulp_pos [of x] by (simp add: of_int_le_iff [of _ "2 ^ 53", simplified])
  then have up: "rd x \<le> 2 powr of_int (binade x + 1)"
    unfolding ulp_times_2_53 using nzx by (simp add: rd_def)
  have "- 1022 < binade y" using lt binade_ge [of x] by simp
  then have nrm: "- 1022 \<le> \<lfloor>log 2 \<bar>y\<bar>\<rfloor>"
    unfolding binade_def by linarith
  have "\<bar>y\<bar> / ulp y = y / ulp y" using assms by simp
  with scaled_ge [OF nzy nrm] have "of_int (2 ^ 52) \<le> y / ulp y" by simp
  then have "round_even (of_int (2 ^ 52)) \<le> round_even (y / ulp y)"
    by (rule round_even_mono)
  then have "2 ^ 52 \<le> round_even (y / ulp y)"
    by (simp only: round_even_of_int)
  then have "2 ^ 52 * ulp y \<le> of_int (round_even (y / ulp y)) * ulp y"
    using ulp_pos [of y] by (simp add: of_int_le_iff [of "2 ^ 52", simplified])
  then have low: "2 powr of_int (binade y) \<le> rd y"
    unfolding ulp_times_2_52 using nzy by (simp add: rd_def)
  have "(2::real) powr of_int (binade x + 1) \<le> 2 powr of_int (binade y)"
    using lt by simp
  with up low show ?thesis by linarith
qed

lemma rd_mono: "x \<le> y \<Longrightarrow> rd x \<le> rd y"
proof -
  assume le: "x \<le> y"
  consider "0 < x" | "x \<le> 0" "0 \<le> y" | "y < 0" by linarith
  then show ?thesis
  proof cases
    case 1
    then show ?thesis using le by (rule rd_mono_pos)
  next
    case 2
    then have "rd x \<le> 0"
      using rd_nonneg [of "- x"] by (simp add: rd_minus)
    moreover have "0 \<le> rd y" using 2 by (simp add: rd_nonneg)
    ultimately show ?thesis by simp
  next
    case 3
    then have "rd (- y) \<le> rd (- x)"
      using le by (intro rd_mono_pos) simp_all
    then show ?thesis by (simp add: rd_minus)
  qed
qed

subsection \<open>Doubles and the rounding to a number\<close>

lemma is_double_rd: "\<bar>rd x\<bar> < 2 ^ 1024 \<Longrightarrow> is_double (rd x)"
  by (simp add: is_double_def rd_rd)

lemma is_double_val: "is_double (val a)"
  using val [of a] by simp

lemma val_dbl: "is_double x \<Longrightarrow> val (dbl x) = x"
  by (simp add: dbl_inverse)

lemma is_double_minus [simp]: "is_double (- x) = is_double x"
  by (auto simp: is_double_def rd_minus)

lemma is_double_zero [simp]: "is_double 0"
  by (simp add: is_double_def rd_def)

lemma is_double_exact:
  "x = of_int m * 2 powr of_int k \<Longrightarrow> \<bar>m\<bar> < 2 ^ 53 \<Longrightarrow> - 1074 \<le> k \<Longrightarrow>
   \<bar>x\<bar> < 2 ^ 1024 \<Longrightarrow> is_double x"
  unfolding is_double_def by (blast intro: rd_exact)

lemma is_double_of_int: "\<bar>m\<bar> < 2 ^ 53 \<Longrightarrow> is_double (of_int m)"
proof -
  assume m: "\<bar>m\<bar> < 2 ^ 53"
  then have "\<bar>real_of_int m\<bar> < 2 ^ 53"
    by (metis of_int_abs of_int_less_iff of_int_numeral of_int_power)
  also have "\<dots> < (2::real) ^ 1024" by simp
  finally have "\<bar>real_of_int m\<bar> < 2 ^ 1024" .
  with m show ?thesis
    by (intro is_double_exact [of _ m 0]) simp_all
qed

lemma is_double_of_nat: "n < 2 ^ 53 \<Longrightarrow> is_double (real n)"
  using is_double_of_int [of "int n"] by simp

lemma fl_exact: "is_double x \<Longrightarrow> fl x = Num (dbl x)"
  by (simp add: fl_def is_double_def Let_def)

lemma fl_val [simp]: "fl (val a) = Num a"
  using is_double_val [of a] by (simp add: fl_exact val_inverse)

lemma fl_cases:
  obtains (Num) d where "fl x = Num d" "val d = rd x"
  | (PInf) "fl x = PInf" "2 ^ 1024 \<le> rd x"
  | (NInf) "fl x = NInf" "rd x \<le> - (2 ^ 1024)"
proof (cases "2 ^ 1024 \<le> \<bar>rd x\<bar>")
  case True
  then show ?thesis
    by (cases "0 < rd x") (auto simp: fl_def Let_def intro: PInf NInf)
next
  case False
  then have "is_double (rd x)" by (simp add: is_double_rd)
  then have "val (dbl (rd x)) = rd x" by (rule val_dbl)
  with False show ?thesis
    by (intro Num [of "dbl (rd x)"]) (simp_all add: fl_def Let_def)
qed

lemma fl_not_NaN [simp]: "fl x \<noteq> NaN"
  by (cases x rule: fl_cases) simp_all

lemma fl_zero: "fl 0 = Num (dbl 0)"
  by (simp add: fl_exact)

lemma val_dbl_zero [simp]: "val (dbl 0) = 0"
  by (simp add: val_dbl)

subsection \<open>Operations on numbers given by doubles\<close>

lemma is_double_numeral [simp]: "(numeral w :: int) < 2 ^ 53 \<Longrightarrow> is_double (numeral w)"
  using is_double_of_int [of "numeral w"] by simp

lemma is_double_one [simp]: "is_double 1"
  using is_double_of_int [of 1] by simp

lemma is_double_dyadic:
  assumes "\<bar>m\<bar> < 2 ^ 53" and "j \<le> 1074"
  shows "is_double (of_int m / 2 ^ j)"
proof (rule is_double_exact [of _ m "- int j"])
  show "real_of_int m / 2 ^ j = of_int m * 2 powr of_int (- int j)"
    by (simp add: powr_minus powr_realpow field_simps)
  have "\<bar>real_of_int m\<bar> < 2 ^ 53"
    using assms(1) by (metis of_int_abs of_int_less_iff of_int_numeral of_int_power)
  moreover have "\<bar>real_of_int m / 2 ^ j\<bar> \<le> \<bar>real_of_int m\<bar>"
    by (simp add: field_simps abs_mult mult_le_cancel_left1)
  ultimately show "\<bar>real_of_int m / 2 ^ j\<bar> < 2 ^ 1024"
    by simp
qed (use assms in simp_all)

lemma is_double_half [simp]: "(numeral w :: int) < 2 ^ 53 \<Longrightarrow> is_double (numeral w / 2)"
  using is_double_dyadic [of "numeral w" 1] by simp

lemma is_double_one_half [simp]: "is_double (1 / 2)"
  using is_double_dyadic [of 1 1] by simp

lemma is_double_quarter [simp]: "(numeral w :: int) < 2 ^ 53 \<Longrightarrow> is_double (numeral w / 4)"
  using is_double_dyadic [of "numeral w" 2] by simp

lemma is_double_one_quarter [simp]: "is_double (1 / 4)"
  using is_double_dyadic [of 1 2] by simp

lemma is_double_eighth [simp]: "(numeral w :: int) < 2 ^ 53 \<Longrightarrow> is_double (numeral w / 8)"
  using is_double_dyadic [of "numeral w" 3] by simp

lemma js_NaN [simp]:
  "js_add x NaN = NaN" "js_add NaN x = NaN" "js_mul x NaN = NaN" "js_mul NaN x = NaN"
  "js_div x NaN = NaN" "js_div NaN x = NaN" "js_sub x NaN = NaN" "js_sub NaN x = NaN"
  by (cases x; simp add: js_sub_def)+

lemma js_lt_special [simp]:
  "js_lt x NInf = False" "js_lt PInf x = False" "js_lt x NaN = False" "js_lt NaN x = False"
  by (cases x; simp)+

lemma sub_one_nat:
  assumes "0 < n" and "n < 2 ^ 53"
  shows "js_sub (fl (real n)) (fl 1) = fl (real (n - 1))"
proof -
  have "is_double (real n)" using assms(2) by (rule is_double_of_nat)
  then have "js_sub (fl (real n)) (fl 1) = fl (real n - 1)"
    by (simp add: js_sub_def fl_exact val_dbl)
  also have "real n - 1 = real (n - 1)"
    using assms(1) by (simp add: of_nat_diff)
  finally show ?thesis .
qed

lemma add_one_nat:
  assumes "n < 2 ^ 53"
  shows "js_add (fl (real n)) (fl 1) = fl (real (Suc n))"
proof -
  have "is_double (real n)" using assms by (rule is_double_of_nat)
  then have "js_add (fl (real n)) (fl 1) = fl (real n + 1)"
    by (simp add: fl_exact val_dbl)
  also have "real n + 1 = real (Suc n)" by simp
  finally show ?thesis .
qed

lemma lit_neg: "is_double a \<Longrightarrow> js_neg (fl a) = fl (- a)"
  by (simp add: fl_exact val_dbl)

lemma lit_add: "is_double a \<Longrightarrow> is_double b \<Longrightarrow> js_add (fl a) (fl b) = fl (a + b)"
  by (simp add: fl_exact val_dbl)

lemma lit_sub: "is_double a \<Longrightarrow> is_double b \<Longrightarrow> js_sub (fl a) (fl b) = fl (a - b)"
  by (simp add: js_sub_def fl_exact val_dbl)

lemma lit_mul: "is_double a \<Longrightarrow> is_double b \<Longrightarrow> js_mul (fl a) (fl b) = fl (a * b)"
  by (simp add: fl_exact val_dbl)

lemma lit_div:
  "is_double a \<Longrightarrow> is_double b \<Longrightarrow> b \<noteq> 0 \<Longrightarrow> js_div (fl a) (fl b) = fl (a / b)"
  by (simp add: fl_exact val_dbl)

lemma lit_div_zero: "js_div (fl 0) (fl 0) = NaN"
  by (simp add: fl_exact val_dbl)

lemma lit_abs: "is_double a \<Longrightarrow> Math_abs (fl a) = fl \<bar>a\<bar>"
  by (simp add: fl_exact val_dbl)

lemma lit_sqrt: "is_double a \<Longrightarrow> 0 \<le> a \<Longrightarrow> Math_sqrt (fl a) = fl (sqrt a)"
  by (simp add: fl_exact val_dbl)

lemma lit_exp: "is_double a \<Longrightarrow> Math_exp (fl a) = fl (exp a)"
  by (simp add: fl_exact val_dbl)

lemma lit_floor: "is_double a \<Longrightarrow> Math_floor (fl a) = fl (of_int \<lfloor>a\<rfloor>)"
  by (simp add: fl_exact val_dbl)

lemma lit_lt: "is_double a \<Longrightarrow> is_double b \<Longrightarrow> js_lt (fl a) (fl b) = (a < b)"
  by (simp add: fl_exact val_dbl)

lemma lit_eq: "is_double a \<Longrightarrow> is_double b \<Longrightarrow> (fl a = fl b) = (a = b)"
  by (auto simp: fl_exact dbl_inject)

lemma lit_seq: "is_double a \<Longrightarrow> is_double b \<Longrightarrow> js_seq (fl a) (fl b) = (a = b)"
  by (simp add: js_seq_def lit_eq)

lemma lit_inf:
  "is_double b \<Longrightarrow> js_div PInf (fl b) = (if 0 \<le> b then PInf else NInf)"
  "is_double b \<Longrightarrow> js_div NInf (fl b) = (if 0 \<le> b then NInf else PInf)"
  "is_double b \<Longrightarrow> js_mul PInf (fl b) = (if b = 0 then NaN else if 0 < b then PInf else NInf)"
  "is_double b \<Longrightarrow> js_mul NInf (fl b) = (if b = 0 then NaN else if 0 < b then NInf else PInf)"
  "is_double b \<Longrightarrow> js_mul (fl b) PInf = (if b = 0 then NaN else if 0 < b then PInf else NInf)"
  "is_double b \<Longrightarrow> js_mul (fl b) NInf = (if b = 0 then NaN else if 0 < b then NInf else PInf)"
  "is_double b \<Longrightarrow> js_add PInf (fl b) = PInf"
  "is_double b \<Longrightarrow> js_add (fl b) PInf = PInf"
  "is_double b \<Longrightarrow> js_add NInf (fl b) = NInf"
  "is_double b \<Longrightarrow> js_add (fl b) NInf = NInf"
  "is_double b \<Longrightarrow> js_sub PInf (fl b) = PInf"
  "is_double b \<Longrightarrow> js_sub (fl b) PInf = NInf"
  "is_double b \<Longrightarrow> js_sub NInf (fl b) = NInf"
  "is_double b \<Longrightarrow> js_sub (fl b) NInf = PInf"
  by (simp_all add: fl_exact val_dbl js_sub_def)

lemmas lit_simps = lit_neg lit_add lit_sub lit_mul lit_div lit_abs lit_sqrt lit_exp lit_floor
  lit_lt lit_eq lit_seq lit_inf js_gt_def js_ge_def js_le_def

subsection \<open>Order and rounding\<close>

lemma js_sub_Num: "js_sub (Num a) (Num b) = fl (val a - val b)"
proof -
  have "is_double (- val b)" by (simp add: is_double_val)
  then show ?thesis
    by (simp add: js_sub_def fl_exact val_dbl)
qed

lemma fl_le_PInf: "2 ^ 1024 \<le> x \<Longrightarrow> fl x = PInf"
proof -
  assume a: "2 ^ 1024 \<le> x"
  have "rd (2 ^ 1024) = 2 ^ 1024"
    by (rule rd_exact [of _ 1 1024]) (simp_all add: powr_realpow [of 2 1024, simplified])
  with rd_mono [OF a] have "2 ^ 1024 \<le> rd x" by simp
  then show ?thesis by (simp add: fl_def Let_def)
qed

lemma fl_le_NInf: "x \<le> - (2 ^ 1024) \<Longrightarrow> fl x = NInf"
proof -
  assume a: "x \<le> - (2 ^ 1024)"
  have "rd (2 ^ 1024) = 2 ^ 1024"
    by (rule rd_exact [of _ 1 1024]) (simp_all add: powr_realpow [of 2 1024, simplified])
  then have "rd (- (2 ^ 1024)) = - (2 ^ 1024)"
    by (simp add: rd_minus)
  with rd_mono [OF a] have "rd x \<le> - (2 ^ 1024)" by simp
  then show ?thesis by (simp add: fl_def Let_def)
qed

lemma is_double_huge [simp]: "is_double huge"
  unfolding huge_def
  by (rule is_double_exact [of _ 1 1023]) (simp_all add: powr_realpow [of 2 1023, simplified])

lemma huge_pos: "0 < huge"
  by (simp add: huge_def)

lemma fl_huge_twice: "fl (2 * huge) = PInf" "fl (huge + huge) = PInf"
  by (rule fl_le_PInf, simp add: huge_def)+

lemma fl_minus_huge_twice: "fl (- (2 * huge)) = NInf" "fl (- huge - huge) = NInf"
  by (rule fl_le_NInf, simp add: huge_def)+

lemma val_le_fl:
  assumes "val a \<le> x"
  shows "js_le (Num a) (fl x)"
proof (cases x rule: fl_cases)
  case (Num d)
  have "rd (val a) = val a"
    using is_double_val [of a] by (simp add: is_double_def)
  with rd_mono [OF assms] Num have "val a \<le> val d" by simp
  then have "a = d \<or> val a < val d"
    by (auto simp: order_le_less val_inject)
  then show ?thesis
    by (auto simp: Num(1) js_le_def js_seq_def)
next
  case PInf
  then show ?thesis by (simp add: js_le_def)
next
  case NInf
  have "rd (val a) = val a" and "\<bar>val a\<bar> < 2 ^ 1024"
    using is_double_val [of a] by (simp_all add: is_double_def)
  with rd_mono [OF assms] NInf show ?thesis by linarith
qed

lemma fl_le_val:
  assumes "x \<le> val a"
  shows "js_le (fl x) (Num a)"
proof (cases x rule: fl_cases)
  case (Num d)
  have "rd (val a) = val a"
    using is_double_val [of a] by (simp add: is_double_def)
  with rd_mono [OF assms] Num have "val d \<le> val a" by simp
  then have "d = a \<or> val d < val a"
    by (auto simp: order_le_less val_inject)
  then show ?thesis
    by (auto simp: Num(1) js_le_def js_seq_def)
next
  case NInf
  then show ?thesis by (simp add: js_le_def)
next
  case PInf
  have "rd (val a) = val a" and "\<bar>val a\<bar> < 2 ^ 1024"
    using is_double_val [of a] by (simp_all add: is_double_def)
  with rd_mono [OF assms] PInf show ?thesis by linarith
qed

lemma fl_nonneg_cases:
  assumes "0 \<le> x"
  obtains (Num) d where "fl x = Num d" "0 \<le> val d" | (PInf) "fl x = PInf"
proof (cases x rule: fl_cases)
  case (Num d)
  with rd_nonneg [OF assms] show ?thesis by (intro that(1) [of d]) simp_all
next
  case PInf
  from PInf(1) show ?thesis by (rule that(2))
next
  case NInf
  with rd_nonneg [OF assms] show ?thesis by simp
qed

subsection \<open>Doubles are multiples of the smallest double\<close>

lemma double_multiple:
  assumes "is_double x"
  shows "\<exists>n::int. x = of_int n * 2 powr (- 1074)"
proof (cases "x = 0")
  case True
  then show ?thesis by (intro exI [of _ 0]) simp
next
  case False
  define j where "j = nat (binade x + 1022)"
  have j: "of_int (binade x) - 52 = real j + (- 1074)"
    using binade_ge [of x] by (simp add: j_def)
  have "ulp x = 2 ^ j * 2 powr (- 1074)"
    unfolding ulp_def j powr_add by (simp add: powr_realpow)
  moreover have "x = of_int (round_even (x / ulp x)) * ulp x"
    using assms False by (simp add: is_double_def rd_def)
  ultimately have "x = of_int (round_even (x / ulp x) * 2 ^ j) * 2 powr (- 1074)"
    by simp
  then show ?thesis by blast
qed

lemma double_gap:
  assumes "is_double a" and "is_double b" and "a < b"
  shows "2 powr (- 1074) \<le> b - a"
proof -
  from double_multiple [OF assms(1)] double_multiple [OF assms(2)]
  obtain m n :: int where a: "a = of_int m * 2 powr (- 1074)" and b: "b = of_int n * 2 powr (- 1074)"
    by blast
  have p: "0 < (2::real) powr (- 1074)" by simp
  from assms(3) have "of_int m * 2 powr (- 1074) < of_int n * (2::real) powr (- 1074)"
    by (simp add: a b)
  with p have "m < n" by (simp add: mult_less_cancel_right)
  then have "1 \<le> real_of_int (n - m)" by simp
  then have "1 * 2 powr (- 1074) \<le> real_of_int (n - m) * 2 powr (- 1074)"
    using p by (intro mult_right_mono) simp_all
  then show ?thesis
    by (simp add: a b algebra_simps)
qed

lemma rd_tiny: "rd (2 powr (- 1074)) = 2 powr (- 1074)"
  by (rule rd_exact [of _ 1 "- 1074"]) simp_all

lemma difference_sign:
  "js_lt (fl 0) (js_sub (Num a) (Num b)) = (val b < val a)"
proof (cases "val b < val a")
  case True
  from double_gap [OF is_double_val is_double_val True]
  have "rd (2 powr (- 1074)) \<le> rd (val a - val b)" by (rule rd_mono)
  then have "2 powr (- 1074) \<le> rd (val a - val b)"
    by (simp only: rd_tiny)
  moreover have "0 < (2::real) powr (- 1074)" by simp
  ultimately have pos: "0 < rd (val a - val b)" by linarith
  show ?thesis
  proof (cases "val a - val b" rule: fl_cases)
    case (Num d)
    with pos True show ?thesis by (simp add: js_sub_Num fl_zero)
  next
    case PInf
    with True show ?thesis by (simp add: js_sub_Num fl_zero)
  next
    case NInf
    with pos show ?thesis by simp
  qed
next
  case False
  then have "val a - val b \<le> 0" by simp
  then have "0 \<le> rd (- (val a - val b))"
    by (intro rd_nonneg) simp
  then have np: "rd (val a - val b) \<le> 0"
    by (simp only: rd_minus neg_0_le_iff_le)
  show ?thesis
  proof (cases "val a - val b" rule: fl_cases)
    case (Num d)
    with np False show ?thesis by (simp add: js_sub_Num fl_zero)
  next
    case PInf
    with np show ?thesis by simp
  next
    case NInf
    with False show ?thesis by (simp add: js_sub_Num fl_zero)
  qed
qed

subsection \<open>Rounded sums and separated numbers\<close>

lemma binade_eq:
  assumes "2 powr of_int e \<le> \<bar>x\<bar>" and "\<bar>x\<bar> < 2 powr (of_int e + 1)" and "- 1022 \<le> e"
  shows "binade x = e"
proof -
  have "0 < (2::real) powr of_int e" by simp
  with assms(1) have pos: "0 < \<bar>x\<bar>" by linarith
  have "\<lfloor>log 2 \<bar>x\<bar>\<rfloor> = e"
    using pos assms(1,2) floor_log_eq_powr_iff [of "\<bar>x\<bar>" 2 e] by simp
  with assms(3) show ?thesis by (simp add: binade_def)
qed

lemma is_double_big [simp]: "is_double big"
  unfolding big_def by (rule is_double_exact [of _ 1 53]) (simp_all add: powr_realpow)

lemma rd_big_plus_one: "rd (big + 1) = big"
proof -
  have b: "binade (big + 1) = 53"
    by (rule binade_eq) (simp_all add: big_def powr_realpow powr_add)
  have u: "ulp (big + 1) = 2"
    by (simp add: ulp_def b)
  have q: "(big + 1) / 2 = of_int (2 ^ 52) + 1 / 2"
    by (simp add: big_def)
  have r: "round_even (of_int (2 ^ 52) + 1 / 2) = 2 ^ 52"
    unfolding round_even_def Let_def by (simp only: floor_add_int) simp
  have nz: "big + 1 \<noteq> 0" by (simp add: big_def)
  have "rd (big + 1) = of_int (round_even ((big + 1) / ulp (big + 1))) * ulp (big + 1)"
    using nz by (simp only: rd_def if_False)
  also have "\<dots> = of_int (round_even (of_int (2 ^ 52) + 1 / 2)) * 2"
    by (simp only: u q)
  also have "\<dots> = of_int (2 ^ 52) * 2"
    by (simp only: r)
  also have "\<dots> = big"
    by (simp add: big_def)
  finally show ?thesis .
qed

lemma fl_big_plus_one: "fl (big + 1) = fl big"
proof -
  have "rd big = big" using is_double_big by (simp add: is_double_def)
  then show ?thesis
    by (simp add: fl_def rd_big_plus_one)
qed

lemma fl_separated:
  assumes "x \<le> c" and "c < d" and "d \<le> y" and "is_double c" and "is_double d"
  shows "fl x \<noteq> fl y"
proof -
  have c: "rd c = c" "\<bar>c\<bar> < 2 ^ 1024" and d: "rd d = d" "\<bar>d\<bar> < 2 ^ 1024"
    using assms(4,5) by (simp_all add: is_double_def)
  have x: "rd x \<le> c" using rd_mono [OF assms(1)] c by simp
  have y: "d \<le> rd y" using rd_mono [OF assms(3)] d by simp
  show ?thesis
  proof (cases x rule: fl_cases)
    case (Num e)
    show ?thesis
    proof (cases y rule: fl_cases)
      case (Num e')
      with \<open>val e = rd x\<close> x y assms(2) have "val e \<noteq> val e'" by simp
      then show ?thesis using \<open>fl x = Num e\<close> Num by auto
    qed (simp_all add: \<open>fl x = Num e\<close>)
  next
    case PInf
    with x c show ?thesis by linarith
  next
    case NInf
    show ?thesis
    proof (cases y rule: fl_cases)
      case NInf
      with y d show ?thesis by linarith
    qed (simp_all add: \<open>fl x = NInf\<close>)
  qed
qed

subsection \<open>The ascending sort\<close>

lemma insert_by_Num:
  "insert_by (\<lambda>a b. js_sub a b) (Num x) (map Num ys) = map Num (insort x ys)"
  by (induction ys) (auto simp: js_gt_def difference_sign less_eq_double_def)

lemma sort_ascending_Num: "sort_ascending (map Num xs) = map Num (sort xs)"
  by (induction xs) (simp_all add: sort_ascending_def sort_by_def insert_by_Num)

section \<open>Properties of the simple moving average\<close>

lemma fold_snoc_map: "fold (\<lambda>i r. r @ [f i]) is acc = acc @ map f is"
  by (induction "is" arbitrary: acc) simp_all

lemma upt_shift: "[p ..< p + m] = map (\<lambda>j. j + p) [0 ..< m]"
  by (simp add: map_add_upt add.commute)

lemma sma_general:
  "period \<le> length data \<Longrightarrow>
   sma data period =
     Some (map (\<lambda>j. js_div (reduce_add (slice j (j + period) data)) (fl (real period)))
             [0 ..< length data - period + 1])"
proof -
  assume le: "period \<le> length data"
  have "[period ..< Suc (length data)] = [period ..< period + (length data - period + 1)]"
    using le by simp
  also have "\<dots> = map (\<lambda>j. j + period) [0 ..< length data - period + 1]"
    by (rule upt_shift)
  finally have idx: "[period ..< Suc (length data)] =
      map (\<lambda>j. j + period) [0 ..< length data - period + 1]" .
  show ?thesis
    using le by (simp add: sma_def Let_def fold_snoc_map idx o_def del: upt_Suc)
qed

lemma abs_sum_list_le: "\<bar>sum_list ms\<bar> \<le> sum_list (map abs ms)" for ms :: "int list"
  by (induction ms) auto

lemma sum_abs_window_le:
  "sum_list (map abs (take n (drop j ms))) \<le> sum_list (map abs ms)" for ms :: "int list"
proof -
  have nn: "0 \<le> sum_list (map abs xs)" for xs :: "int list"
    by (induction xs) auto
  have "ms = take j ms @ take n (drop j ms) @ drop n (drop j ms)"
    by (metis append_take_drop_id)
  then have "sum_list (map abs ms) =
      sum_list (map abs (take j ms)) + sum_list (map abs (take n (drop j ms))) +
      sum_list (map abs (drop n (drop j ms)))"
    by (metis add.assoc map_append sum_list_append)
  with nn [of "take j ms"] nn [of "drop n (drop j ms)"] show ?thesis by linarith
qed

lemma foldl_add_ints:
  "\<bar>a\<bar> + sum_list (map abs ms) < 2 ^ 53 \<Longrightarrow>
   foldl (\<lambda>a b. js_add a b) (fl (of_int a)) (map (\<lambda>m. fl (of_int m)) ms) =
     fl (of_int (a + sum_list ms))"
proof (induction ms arbitrary: a)
  case Nil
  then show ?case by simp
next
  case (Cons m ms)
  have nn: "0 \<le> sum_list (map abs ms)"
    by (induction ms) auto
  from Cons.prems nn have a: "\<bar>a\<bar> < 2 ^ 53" and m: "\<bar>m\<bar> < 2 ^ 53"
    by simp_all
  have step: "js_add (fl (of_int a)) (fl (of_int m)) = fl (of_int (a + m))"
    using a m by (simp add: lit_add is_double_of_int)
  have "\<bar>a + m\<bar> + sum_list (map abs ms) < 2 ^ 53"
    using Cons.prems by simp
  from Cons.IH [OF this] show ?case
    by (simp add: step add.assoc)
qed

lemma reduce_add_ints:
  "sum_list (map abs ms) < 2 ^ 53 \<Longrightarrow>
   reduce_add (map (\<lambda>m. fl (of_int m)) ms) = fl (of_int (sum_list ms))"
  using foldl_add_ints [of 0 ms] by (simp add: reduce_add_def)

lemma sma_ints:
  assumes "1 \<le> period" and "period \<le> length S" and "length S < 2 ^ 53"
    and "sum_list (map abs S) < 2 ^ 53"
  shows "sma (map (\<lambda>m. fl (of_int m)) S) period =
     Some (map (\<lambda>j. fl (mean_spec (map of_int (take period (drop j S)))))
             [0 ..< length S - period + 1])"
proof -
  have p: "is_double (real period)" "real period \<noteq> 0"
    using assms(1,2,3) by (simp_all add: is_double_of_nat)
  have step: "js_div (reduce_add (slice j (j + period) (map (\<lambda>m. fl (of_int m)) S)))
                (fl (real period)) =
              fl (mean_spec (map of_int (take period (drop j S))))"
    if "j \<in> set [0 ..< length S - period + 1]" for j
  proof -
    define w where "w = take period (drop j S)"
    from that have "j < length S - period + 1" by (simp del: upt_Suc)
    with assms have "j + period \<le> length S" by arith
    then have len: "length w = period" by (simp add: w_def)
    have sl: "slice j (j + period) (map (\<lambda>m. fl (of_int m)) S) = map (\<lambda>m. fl (of_int m)) w"
      by (simp add: slice_def w_def take_map drop_map)
    have b: "sum_list (map abs w) < 2 ^ 53"
      using sum_abs_window_le [of period j S] assms(4) by (simp add: w_def)
    with abs_sum_list_le [of w] have "\<bar>sum_list w\<bar> < 2 ^ 53" by linarith
    then have s: "is_double (of_int (sum_list w))"
      by (rule is_double_of_int)
    have "sum_list (map real_of_int xs) = of_int (sum_list xs)" for xs
      by (induction xs) simp_all
    then have "mean_spec (map of_int w) = of_int (sum_list w) / real period"
      by (simp add: mean_spec_def len)
    then show ?thesis
      unfolding w_def [symmetric] sl reduce_add_ints [OF b]
      by (simp only: lit_div [OF s p])
  qed
  have "map (\<lambda>j. js_div (reduce_add (slice j (j + period) (map (\<lambda>m. fl (of_int m)) S)))
                    (fl (real period)))
          [0 ..< length S - period + 1] =
        map (\<lambda>j. fl (mean_spec (map of_int (take period (drop j S)))))
          [0 ..< length S - period + 1]"
    by (rule map_cong [OF refl]) (rule step)
  with sma_general [of period "map (\<lambda>m. fl (of_int m)) S"] assms show ?thesis
    by (simp del: upt_Suc)
qed

text \<open>
  C2, as stated, fails: an element of the result need not be the mean of its window. On
  \<open>[2\<^sup>1\<^sup>0\<^sup>2\<^sup>3, 2\<^sup>1\<^sup>0\<^sup>2\<^sup>3]\<close> with period 2 the sum of the window overflows and the
  routine returns \<open>[Infinity]\<close>, while the mean of the window is \<open>2\<^sup>1\<^sup>0\<^sup>2\<^sup>3\<close>, a finite
  double. On \<open>[2\<^sup>5\<^sup>3, 1, -2\<^sup>5\<^sup>3]\<close> with period 3 the sum \<open>2\<^sup>5\<^sup>3 + 1\<close> rounds to \<open>2\<^sup>5\<^sup>3\<close> and
  the routine returns \<open>[0]\<close>, while the mean of the window is \<open>1/3\<close>.
\<close>

theorem sma_not_mean:
  "sma (map fl [huge, huge]) 2 = Some [PInf] \<and>
   fl (mean_spec [huge, huge]) = fl huge \<and> fl huge \<noteq> PInf \<and>
   sma (map fl [big, 1, - big]) 3 = Some [fl 0] \<and>
   mean_spec [big, 1, - big] = 1 / 3 \<and> fl (1 / 3) \<noteq> fl 0"
proof (intro conjI)
  show "sma (map fl [huge, huge]) 2 = Some [PInf]"
    by (simp add: sma_def slice_def reduce_add_def lit_simps eval_nat_numeral fl_huge_twice)
  show "fl (mean_spec [huge, huge]) = fl huge"
    by (simp add: mean_spec_def)
  show "fl huge \<noteq> PInf"
    by (simp add: fl_exact)
  show "sma (map fl [big, 1, - big]) 3 = Some [fl 0]"
    by (simp add: sma_def slice_def reduce_add_def lit_simps eval_nat_numeral fl_big_plus_one)
  show "mean_spec [big, 1, - big] = 1 / 3"
    by (simp add: mean_spec_def)
  show "fl (1 / 3) \<noteq> fl 0"
    using fl_separated [of 0 0 "1 / 4" "1 / 3"] by simp
qed

text \<open>
  C2, amended. When \<open>len(S) \<ge> period\<close> the routine returns \<open>len(S) - period + 1\<close>
  elements, and element \<open>j\<close> is the quotient, in double arithmetic, of the left-to-right
  sum of the window \<open>S[j .. j + period - 1]\<close> (started from 0, rounded after every addition)
  by \<open>period\<close>. On a series of integers whose absolute values sum to less than \<open>2\<^sup>5\<^sup>3\<close>
  no addition rounds, and element \<open>j\<close> is the double nearest to the arithmetic mean of the
  window. In particular \<open>sma([1,2,3,4,5], 3) = [2, 3, 4]\<close>. When \<open>len(S) < period\<close> the
  routine returns the sentinel and raises nothing.
\<close>

theorem sma_windows:
  "(period \<le> length data \<longrightarrow>
      (\<exists>r. sma data period = Some r \<and> length r = length data - period + 1 \<and>
           (\<forall>j<length r. r ! j = js_div (reduce_add (take period (drop j data)))
                                         (fl (real period)))))
   \<and> (1 \<le> period \<and> period \<le> length S \<and> length S < 2 ^ 53 \<and>
        sum_list (map abs S) < 2 ^ 53 \<longrightarrow>
      (\<exists>r. sma (map (\<lambda>m. fl (of_int m)) S) period = Some r \<and>
           length r = length S - period + 1 \<and>
           (\<forall>j<length r. r ! j = fl (mean_spec (map of_int (take period (drop j S)))))))
   \<and> sma (map fl [1, 2, 3, 4, 5]) 3 = Some (map fl [2, 3, 4])
   \<and> (length D < period \<longrightarrow> sma D period = None)"
proof (intro conjI impI)
  assume "period \<le> length data"
  then have "sma data period =
     Some (map (\<lambda>j. js_div (reduce_add (take period (drop j data))) (fl (real period)))
             [0 ..< length data - period + 1])"
    by (simp add: sma_general slice_def)
  then show "\<exists>r. sma data period = Some r \<and> length r = length data - period + 1 \<and>
           (\<forall>j<length r. r ! j = js_div (reduce_add (take period (drop j data)))
                                         (fl (real period)))"
    by (simp del: upt_Suc)
next
  assume "1 \<le> period \<and> period \<le> length S \<and> length S < 2 ^ 53 \<and>
        sum_list (map abs S) < 2 ^ 53"
  then have "sma (map (\<lambda>m. fl (of_int m)) S) period =
     Some (map (\<lambda>j. fl (mean_spec (map of_int (take period (drop j S)))))
             [0 ..< length S - period + 1])"
    by (intro sma_ints) simp_all
  then show "\<exists>r. sma (map (\<lambda>m. fl (of_int m)) S) period = Some r \<and>
           length r = length S - period + 1 \<and>
           (\<forall>j<length r. r ! j = fl (mean_spec (map of_int (take period (drop j S)))))"
    by (simp del: upt_Suc)
next
  show "sma (map fl [1, 2, 3, 4, 5]) 3 = Some (map fl [2, 3, 4])"
    by (simp add: sma_def slice_def reduce_add_def lit_simps eval_nat_numeral)
next
  assume "length D < period"
  then show "sma D period = None" by (simp add: sma_def)
qed

theorem sma_windows_witness:
  "(3::nat) \<le> length [fl 1, fl 2, fl 3]
   \<and> (\<exists>r. sma [fl 1, fl 2, fl 3] 3 = Some r \<and>
        length r = length [fl 1, fl 2, fl 3] - 3 + 1 \<and>
        (\<forall>j<length r. r ! j = js_div (reduce_add (take 3 (drop j [fl 1, fl 2, fl 3])))
                                      (fl (real 3))))
   \<and> (1 \<le> (3::nat) \<and> 3 \<le> length [1, 2, 3, 4, 5 :: int] \<and>
        length [1, 2, 3, 4, 5 :: int] < 2 ^ 53 \<and>
        sum_list (map abs [1, 2, 3, 4, 5 :: int]) < 2 ^ 53)
   \<and> (\<exists>r. sma (map (\<lambda>m. fl (of_int m)) [1, 2, 3, 4, 5]) 3 = Some r \<and>
        length r = length [1, 2, 3, 4, 5 :: int] - 3 + 1 \<and>
        (\<forall>j<length r. r ! j = fl (mean_spec (map of_int (take 3 (drop j [1, 2, 3, 4, 5]))))))
   \<and> length [fl 1, fl 2] < (3::nat)
   \<and> sma [fl 1, fl 2] 3 = None"
proof -
  have a: "(3::nat) \<le> length [fl 1, fl 2, fl 3]" by simp
  have b: "1 \<le> (3::nat) \<and> 3 \<le> length [1, 2, 3, 4, 5 :: int] \<and>
        length [1, 2, 3, 4, 5 :: int] < 2 ^ 53 \<and>
        sum_list (map abs [1, 2, 3, 4, 5 :: int]) < 2 ^ 53" by simp
  have d: "length [fl 1, fl 2] < (3::nat)" by simp
  from a b d
    sma_windows [where period = 3 and data = "[fl 1, fl 2, fl 3]"
      and S = "[1, 2, 3, 4, 5]" and D = "[fl 1, fl 2]"]
  show ?thesis by blast
qed

section \<open>Properties of the Bollinger bands\<close>

lemma sqrt_class:
  "Math_sqrt v = NaN \<or> Math_sqrt v = PInf \<or> (\<exists>b. Math_sqrt v = Num b \<and> 0 \<le> val b)"
proof (cases v)
  case (Num a)
  show ?thesis
  proof (cases "val a < 0")
    case True
    with Num show ?thesis by simp
  next
    case False
    then have "0 \<le> sqrt (val a)" by simp
    then show ?thesis
      by (cases "sqrt (val a)" rule: fl_nonneg_cases) (use Num False in auto)
  qed
qed simp_all

lemma nonneg_class:
  "js_le (fl 0) k = (k = PInf \<or> (\<exists>d. k = Num d \<and> 0 \<le> val d))"
  by (cases k) (auto simp: js_le_def js_seq_def fl_zero val_inject [symmetric] order_le_less)

lemma mul_class:
  assumes "s = NaN \<or> s = PInf \<or> (\<exists>b. s = Num b \<and> 0 \<le> val b)" and "js_le (fl 0) k"
  shows "js_mul s k = NaN \<or> js_mul s k = PInf \<or> (\<exists>b. js_mul s k = Num b \<and> 0 \<le> val b)"
proof -
  consider "k = PInf" | d where "k = Num d" "0 \<le> val d"
    using assms(2) unfolding nonneg_class by blast
  then show ?thesis
  proof cases
    case 1
    with assms(1) show ?thesis by auto
  next
    case 2
    consider "s = NaN" | "s = PInf" | b where "s = Num b" "0 \<le> val b"
      using assms(1) by blast
    then show ?thesis
    proof cases
      case 3
      with 2 have "0 \<le> val b * val d" by simp
      then show ?thesis
        by (cases "val b * val d" rule: fl_nonneg_cases) (use 2 3 in auto)
    qed (use 2 in auto)
  qed
qed

lemma band_order:
  assumes t: "t = NaN \<or> t = PInf \<or> (\<exists>b. t = Num b \<and> 0 \<le> val b)"
    and up: "js_add m t \<noteq> NaN" and lo: "js_sub m t \<noteq> NaN"
  shows "js_le (js_sub m t) m \<and> js_le m (js_add m t)"
proof -
  from up have tn: "t \<noteq> NaN" by auto
  from up have mn: "m \<noteq> NaN" by auto
  consider "t = PInf" | b where "t = Num b" "0 \<le> val b"
    using t tn by blast
  then show ?thesis
  proof cases
    case 1
    with up lo mn show ?thesis
      by (cases m) (simp_all add: js_sub_def js_le_def)
  next
    case 2
    show ?thesis
    proof (cases m)
      case (Num a)
      have "js_le (fl (val a - val b)) (Num a)"
        by (rule fl_le_val) (use 2 in simp)
      moreover have "js_le (Num a) (fl (val a + val b))"
        by (rule val_le_fl) (use 2 in simp)
      ultimately show ?thesis
        by (simp add: Num 2 js_sub_Num)
    next
      case PInf
      have "js_neg (Num b) \<noteq> NaN" by simp
      then have "js_add PInf (js_neg (Num b)) = PInf"
        by (cases "js_neg (Num b)") (use lo PInf 2 in \<open>simp_all add: js_sub_def\<close>)
      then show ?thesis
        by (simp add: PInf 2 js_sub_def js_le_def js_seq_def)
    next
      case NInf
      have "js_neg (Num b) \<noteq> NaN" by simp
      then have "js_add NInf (js_neg (Num b)) = NInf"
        by (cases "js_neg (Num b)") (use lo NInf 2 in \<open>simp_all add: js_sub_def\<close>)
      then show ?thesis
        by (simp add: NInf 2 js_sub_def js_le_def js_seq_def)
    next
      case NaN
      with mn show ?thesis by simp
    qed
  qed
qed

lemma NaN_not_ordered: "\<not> js_le NaN x" "\<not> js_le x NaN"
  by (cases x; simp add: js_le_def js_seq_def)+

lemma band_at_ordered_iff:
  fixes data :: "jsnum list" and period idx :: nat and k m :: jsnum
  assumes "js_le (fl 0) k"
  defines "b \<equiv> band_at data period k m idx"
  shows "(js_le (lower b) (middle b) \<and> js_le (middle b) (upper b)) =
         (lower b \<noteq> NaN \<and> upper b \<noteq> NaN)"
proof -
  define sd where "sd = Math_sqrt (js_div
      (foldl (\<lambda>a b. js_add a (Math_pow (js_sub b m) 2)) (fl 0) (slice idx (idx + period) data))
      (fl (real period)))"
  have b: "b = \<lparr>middle = m, upper = js_add m (js_mul sd k),
                 lower = js_sub m (js_mul sd k)\<rparr>"
    by (simp add: b_def band_at_def Let_def sd_def)
  have cls: "js_mul sd k = NaN \<or> js_mul sd k = PInf \<or>
             (\<exists>b. js_mul sd k = Num b \<and> 0 \<le> val b)"
    by (rule mul_class [OF _ assms(1)]) (simp add: sd_def sqrt_class)
  show ?thesis
  proof (cases "lower b \<noteq> NaN \<and> upper b \<noteq> NaN")
    case True
    with band_order [OF cls, of m] show ?thesis by (simp add: b)
  next
    case False
    then show ?thesis
      using NaN_not_ordered by auto
  qed
qed

lemma bollinger_bands_nth:
  assumes "period \<le> length data"
  shows "\<exists>ms bs. sma data period = Some ms \<and>
           bollingerBands data period stdDevMult = Some bs \<and>
           length bs = length ms \<and> length bs = length data - period + 1 \<and>
           (\<forall>i<length bs. bs ! i = band_at data period stdDevMult (ms ! i) i)"
proof -
  from sma_general [OF assms] obtain ms where ms: "sma data period = Some ms"
    and len: "length ms = length data - period + 1"
    by (simp del: upt_Suc)
  define bs where "bs = map (\<lambda>(m, idx). band_at data period stdDevMult m idx)
                          (zip ms [0 ..< length ms])"
  have "bollingerBands data period stdDevMult = Some bs"
    by (simp add: bollingerBands_def ms bs_def)
  moreover have "length bs = length ms"
    by (simp add: bs_def)
  moreover have "\<forall>i<length bs. bs ! i = band_at data period stdDevMult (ms ! i) i"
    by (simp add: bs_def)
  ultimately show ?thesis
    using ms len by auto
qed

text \<open>
  C5, as stated, fails: the bands need not be ordered. On \<open>[2\<^sup>1\<^sup>0\<^sup>2\<^sup>3, 2\<^sup>1\<^sup>0\<^sup>2\<^sup>3]\<close> with
  period 2 and multiplier 2 the middle band is \<open>Infinity\<close>, the deviation is \<open>NaN\<close>, and
  the record returned has \<open>upper = Infinity\<close> and \<open>lower = NaN\<close>; \<open>NaN \<le> Infinity\<close> is
  false.
\<close>

theorem bollinger_overflow:
  "bollingerBands (map fl [huge, huge]) 2 (fl 2) =
     Some [\<lparr>middle = PInf, upper = PInf, lower = NaN\<rparr>] \<and>
   \<not> js_le NaN PInf"
proof (intro conjI)
  have s: "sma (map fl [huge, huge]) 2 = Some [PInf]"
    by (simp add: sma_def slice_def reduce_add_def lit_simps eval_nat_numeral fl_huge_twice)
  show "bollingerBands (map fl [huge, huge]) 2 (fl 2) =
     Some [\<lparr>middle = PInf, upper = PInf, lower = NaN\<rparr>]"
    unfolding bollingerBands_def s
    by (simp add: band_at_def slice_def lit_simps eval_nat_numeral js_sub_def)
  show "\<not> js_le NaN PInf"
    by (rule NaN_not_ordered)
qed

text \<open>
  C5, amended. When \<open>len(S) \<ge> period\<close> the routine returns one record for each element
  of \<open>sma(S, period)\<close>. The middle band at position \<open>i\<close> is that element, and the upper
  and lower bands are the middle band plus and minus \<open>sd * stdDevMult\<close>, where \<open>sd\<close> is
  the square root of the sum of the squared deviations of the window from the middle band,
  divided by \<open>period\<close>, all in double arithmetic. For every multiplier that is not
  negative (\<open>0 \<le> stdDevMult\<close>, \<open>Infinity\<close> included) the bands are ordered,
  \<open>lower \<le> middle \<le> upper\<close>, exactly when neither outer band is \<open>NaN\<close>.
\<close>

theorem bollinger_bands_ordered:
  "(period \<le> length data \<longrightarrow>
      (\<exists>ms bs. sma data period = Some ms \<and>
           bollingerBands data period stdDevMult = Some bs \<and>
           length bs = length ms \<and> length bs = length data - period + 1 \<and>
           (\<forall>i<length bs.
              middle (bs ! i) = ms ! i \<and>
              upper (bs ! i) =
                js_add (ms ! i)
                  (js_mul (Math_sqrt (js_div
                     (foldl (\<lambda>a b. js_add a (Math_pow (js_sub b (ms ! i)) 2)) (fl 0)
                        (take period (drop i data)))
                     (fl (real period)))) stdDevMult) \<and>
              lower (bs ! i) =
                js_sub (ms ! i)
                  (js_mul (Math_sqrt (js_div
                     (foldl (\<lambda>a b. js_add a (Math_pow (js_sub b (ms ! i)) 2)) (fl 0)
                        (take period (drop i data)))
                     (fl (real period)))) stdDevMult)))) \<and>
   (period \<le> length data \<and> js_le (fl 0) stdDevMult \<longrightarrow>
      (\<exists>bs. bollingerBands data period stdDevMult = Some bs \<and>
           (\<forall>i<length bs.
              (js_le (lower (bs ! i)) (middle (bs ! i)) \<and>
               js_le (middle (bs ! i)) (upper (bs ! i))) =
              (lower (bs ! i) \<noteq> NaN \<and> upper (bs ! i) \<noteq> NaN))))"
proof (intro conjI impI)
  assume "period \<le> length data"
  from bollinger_bands_nth [OF this, of stdDevMult]
  obtain ms bs where ms: "sma data period = Some ms"
    and bs: "bollingerBands data period stdDevMult = Some bs"
    and len: "length bs = length ms" "length bs = length data - period + 1"
    and nth: "\<forall>i<length bs. bs ! i = band_at data period stdDevMult (ms ! i) i"
    by blast
  show "\<exists>ms bs. sma data period = Some ms \<and>
           bollingerBands data period stdDevMult = Some bs \<and>
           length bs = length ms \<and> length bs = length data - period + 1 \<and>
           (\<forall>i<length bs.
              middle (bs ! i) = ms ! i \<and>
              upper (bs ! i) =
                js_add (ms ! i)
                  (js_mul (Math_sqrt (js_div
                     (foldl (\<lambda>a b. js_add a (Math_pow (js_sub b (ms ! i)) 2)) (fl 0)
                        (take period (drop i data)))
                     (fl (real period)))) stdDevMult) \<and>
              lower (bs ! i) =
                js_sub (ms ! i)
                  (js_mul (Math_sqrt (js_div
                     (foldl (\<lambda>a b. js_add a (Math_pow (js_sub b (ms ! i)) 2)) (fl 0)
                        (take period (drop i data)))
                     (fl (real period)))) stdDevMult))"
  proof (intro exI conjI)
    show "sma data period = Some ms" by (rule ms)
    show "bollingerBands data period stdDevMult = Some bs" by (rule bs)
    show "length bs = length ms" by (rule len)
    show "length bs = length data - period + 1" by (rule len)
  qed (use nth in \<open>simp add: band_at_def Let_def slice_def\<close>)
next
  assume a: "period \<le> length data \<and> js_le (fl 0) stdDevMult"
  then have "period \<le> length data" and k: "js_le (fl 0) stdDevMult" by simp_all
  from bollinger_bands_nth [OF this(1), of stdDevMult]
  obtain ms bs where bs: "bollingerBands data period stdDevMult = Some bs"
    and nth: "\<forall>i<length bs. bs ! i = band_at data period stdDevMult (ms ! i) i"
    by blast
  have "(js_le (lower (bs ! i)) (middle (bs ! i)) \<and> js_le (middle (bs ! i)) (upper (bs ! i))) =
        (lower (bs ! i) \<noteq> NaN \<and> upper (bs ! i) \<noteq> NaN)" if "i < length bs" for i
    using nth that band_at_ordered_iff [OF k, of data period "ms ! i" i] by simp
  with bs show "\<exists>bs. bollingerBands data period stdDevMult = Some bs \<and>
           (\<forall>i<length bs.
              (js_le (lower (bs ! i)) (middle (bs ! i)) \<and>
               js_le (middle (bs ! i)) (upper (bs ! i))) =
              (lower (bs ! i) \<noteq> NaN \<and> upper (bs ! i) \<noteq> NaN))"
    by blast
qed

theorem bollinger_bands_ordered_witness:
  "bollingerBands (map fl [1, 3]) 2 (fl 2) =
     Some [\<lparr>middle = fl 2, upper = fl 4, lower = fl 0\<rparr>] \<and>
   (2::nat) \<le> length (map fl [1, 3]) \<and> js_le (fl 0) (fl 2) \<and>
   (\<exists>ms bs. sma (map fl [1, 3]) 2 = Some ms \<and>
        bollingerBands (map fl [1, 3]) 2 (fl 2) = Some bs \<and>
        length bs = length ms \<and> length bs = length (map fl [1, 3]) - 2 + 1 \<and>
        (\<forall>i<length bs.
           middle (bs ! i) = ms ! i \<and>
           upper (bs ! i) =
             js_add (ms ! i)
               (js_mul (Math_sqrt (js_div
                  (foldl (\<lambda>a b. js_add a (Math_pow (js_sub b (ms ! i)) 2)) (fl 0)
                     (take 2 (drop i (map fl [1, 3]))))
                  (fl (real 2)))) (fl 2)) \<and>
           lower (bs ! i) =
             js_sub (ms ! i)
               (js_mul (Math_sqrt (js_div
                  (foldl (\<lambda>a b. js_add a (Math_pow (js_sub b (ms ! i)) 2)) (fl 0)
                     (take 2 (drop i (map fl [1, 3]))))
                  (fl (real 2)))) (fl 2)))) \<and>
   (\<exists>bs. bollingerBands (map fl [1, 3]) 2 (fl 2) = Some bs \<and>
        (\<forall>i<length bs.
           (js_le (lower (bs ! i)) (middle (bs ! i)) \<and>
            js_le (middle (bs ! i)) (upper (bs ! i))) =
           (lower (bs ! i) \<noteq> NaN \<and> upper (bs ! i) \<noteq> NaN))) \<and>
   js_le (fl 0) (fl 2) \<and> js_le (fl 2) (fl 4)"
proof -
  have s: "sma (map fl [1, 3]) 2 = Some [fl 2]"
    by (simp add: sma_def slice_def reduce_add_def lit_simps eval_nat_numeral)
  have e: "bollingerBands (map fl [1, 3]) 2 (fl 2) =
     Some [\<lparr>middle = fl 2, upper = fl 4, lower = fl 0\<rparr>]"
    unfolding bollingerBands_def s
    by (simp add: band_at_def slice_def lit_simps eval_nat_numeral)
  have a1: "(2::nat) \<le> length (map fl [1, 3])" by simp
  have a2: "js_le (fl 0) (fl 2)" by (simp add: lit_simps)
  have o: "js_le (fl 2) (fl 4)" by (simp add: lit_simps)
  note t = bollinger_bands_ordered [where period = 2 and data = "map fl [1, 3]"
      and stdDevMult = "fl 2"]
  note t1 = t [THEN conjunct1, rule_format, OF a1]
  note t2 = t [THEN conjunct2, rule_format, OF conjI [OF a1 a2]]
  show ?thesis
    by (intro conjI e a1 a2 t1 t2 o)
qed

section \<open>Properties of the percentile\<close>

lemma js_at_num_nat: "n < 2 ^ 53 \<Longrightarrow> js_at_num xs (fl (real n)) = js_at xs n"
  by (simp add: js_at_num_def fl_exact val_dbl is_double_of_nat)

lemma mul_zero_Num: "js_mul (fl 0) (Num d) = fl 0"
  by (simp add: fl_zero)

lemma add_zero_Num: "js_add (Num d) (fl 0) = Num d"
  by (simp add: fl_zero)

lemma val_bound: "\<bar>val a\<bar> < 2 * huge"
  using is_double_val [of a] by (simp add: is_double_def huge_def)

lemma js_neg_Num: "\<exists>c. js_neg (Num b) = Num c"
  by (simp add: fl_exact is_double_val)

lemma val_huge:
  "val a < 2 * huge" "- (2 * huge) < val a" "val a \<noteq> 2 * huge" "val a \<noteq> - (2 * huge)"
  "2 * huge \<noteq> val a" "- (2 * huge) \<noteq> val a" "val a \<le> 2 * huge" "- (2 * huge) \<le> val a"
  "\<not> 2 * huge \<le> val a" "\<not> val a \<le> - (2 * huge)" "\<not> 2 * huge < val a"
  "\<not> val a < - (2 * huge)"
  using val_bound [of a] by (simp_all add: abs_less_iff)

lemma huge_order: "0 < huge" "huge \<noteq> 0" "\<not> huge \<le> 0" "\<not> huge < 0" "0 \<le> huge"
  using huge_pos by simp_all

lemma cmp_level:
  assumes "x \<noteq> NaN" and "y \<noteq> NaN"
  shows "js_gt (js_sub x y) (fl 0) = (level y < level x)"
proof (cases x)
  case x: (Num a)
  show ?thesis
  proof (cases y)
    case (Num b)
    then show ?thesis
      by (simp add: x js_gt_def difference_sign level_def)
  next
    case PInf
    then show ?thesis
      by (simp add: x js_gt_def js_sub_def level_def val_huge)
  next
    case NInf
    then show ?thesis
      by (simp add: x js_gt_def js_sub_def level_def val_huge fl_zero)
  qed (use assms in simp)
next
  case x: PInf
  show ?thesis
  proof (cases y)
    case (Num b)
    have "js_add PInf (js_neg (Num b)) = PInf"
      using js_neg_Num [of b] by auto
    then show ?thesis
      by (simp add: x Num js_gt_def js_sub_def level_def val_huge fl_zero)
  next
    case PInf
    then show ?thesis by (simp add: x js_gt_def js_sub_def level_def)
  next
    case NInf
    then show ?thesis by (simp add: x js_gt_def js_sub_def level_def fl_zero huge_order)
  qed (use assms in simp)
next
  case x: NInf
  show ?thesis
  proof (cases y)
    case (Num b)
    have "js_add NInf (js_neg (Num b)) = NInf"
      using js_neg_Num [of b] by auto
    then show ?thesis
      by (simp add: x Num js_gt_def js_sub_def level_def val_huge)
  next
    case PInf
    then show ?thesis by (simp add: x js_gt_def js_sub_def level_def huge_order)
  next
    case NInf
    then show ?thesis by (simp add: x js_gt_def js_sub_def level_def)
  qed (use assms in simp)
qed (use assms in simp)

lemma le_level:
  assumes "x \<noteq> NaN" and "y \<noteq> NaN"
  shows "js_le x y = (level x \<le> level y)"
  using assms
  by (cases x; cases y)
    (auto simp: js_le_def js_seq_def level_def val_inject val_huge huge_order order_le_less)

lemma insert_by_level:
  "x \<noteq> NaN \<Longrightarrow> NaN \<notin> set ys \<Longrightarrow>
   insert_by (\<lambda>a b. js_sub a b) x ys = insort_key level x ys"
  by (induction ys) (auto simp: cmp_level)

lemma sort_ascending_level: "NaN \<notin> set xs \<Longrightarrow> sort_ascending xs = sort_key level xs"
proof (induction xs)
  case Nil
  show ?case by (simp add: sort_ascending_def sort_by_def)
next
  case (Cons x xs)
  then have "sort_ascending xs = sort_key level xs" and "x \<noteq> NaN"
    and "NaN \<notin> set (sort_key level xs)"
    by auto
  then show ?case
    using insert_by_level [of x "sort_key level xs"]
    by (simp add: sort_ascending_def sort_by_def)
qed

lemma length_insert_by: "length (insert_by cmp x ys) = Suc (length ys)"
  by (induction ys) simp_all

lemma length_sort_ascending: "length (sort_ascending xs) = length xs"
  by (induction xs) (simp_all add: sort_ascending_def sort_by_def length_insert_by)

lemma percentile_zero:
  assumes "length xs < 2 ^ 53" and "xs \<noteq> []"
  defines "s \<equiv> sort_ascending xs"
  shows "getPercentile xs (fl 0) =
     Some (if length xs = 1 then s ! 0
           else js_add (s ! 0) (js_mul (fl 0) (js_sub (s ! 1) (s ! 0))))"
proof -
  have n: "0 < length xs" using assms(2) by simp
  have len: "length s = length xs" by (simp add: s_def length_sort_ascending)
  have dm: "is_double (real (length xs - 1))"
    using assms(1) by (intro is_double_of_nat) simp
  have pos: "js_mul (js_sub (fl (real (length xs))) (fl 1)) (fl 0) = fl 0"
    using dm by (simp only: sub_one_nat [OF n assms(1)] lit_mul is_double_zero) simp
  have base: "Math_floor (fl 0) = fl 0"
    by (simp add: lit_floor)
  have rest: "js_sub (fl 0) (fl 0) = fl 0"
    by (simp add: lit_sub)
  have up: "js_add (fl 0) (fl 1) = fl (real (1::nat))"
    by (simp add: lit_add)
  have zero: "fl 0 = fl (real (0::nat))" by simp
  have at1: "js_at_num s (fl (real (1::nat))) = js_at s 1"
    by (rule js_at_num_nat) simp
  have at0: "js_at_num s (fl 0) = Some (s ! 0)"
    unfolding zero using n len by (subst js_at_num_nat) (simp_all add: js_at_def)
  show ?thesis
  proof (cases "length xs = 1")
    case True
    then have "js_at s 1 = None"
      using len by (simp add: js_at_def)
    then show ?thesis
      unfolding getPercentile_def Let_def s_def [symmetric] len pos base rest up at1 at0
      using True by simp
  next
    case False
    with n have two: "1 < length xs" by linarith
    then have a1: "js_at s 1 = Some (s ! 1)"
      using len by (simp add: js_at_def)
    show ?thesis
      unfolding getPercentile_def Let_def s_def [symmetric] len pos base rest up at1 at0 a1
      using False by (simp add: to_number_def)
  qed
qed

lemma percentile_one:
  assumes "length xs < 2 ^ 53" and "xs \<noteq> []"
  defines "s \<equiv> sort_ascending xs"
  shows "getPercentile xs (fl 1) = Some (s ! (length xs - 1))"
proof -
  define m where "m = length xs - 1"
  have n: "0 < length xs" using assms(2) by simp
  then have sm: "Suc m = length xs" by (simp add: m_def)
  have len: "length s = length xs" by (simp add: s_def length_sort_ascending)
  have m53: "m < 2 ^ 53" using assms(1) by (simp add: m_def)
  have dm: "is_double (real m)"
    using m53 by (rule is_double_of_nat)
  have pos: "js_mul (js_sub (fl (real (length xs))) (fl 1)) (fl 1) = fl (real m)"
    using dm by (simp only: sub_one_nat [OF n assms(1)] lit_mul is_double_one m_def) simp
  have base: "Math_floor (fl (real m)) = fl (real m)"
    using dm by (simp add: lit_floor)
  have rest: "js_sub (fl (real m)) (fl (real m)) = fl 0"
    using dm by (simp add: lit_sub)
  have up: "js_add (fl (real m)) (fl 1) = fl (real (length xs))"
    using add_one_nat [OF m53] by (simp only: sm)
  have none: "js_at_num s (fl (real (length xs))) = None"
    using assms(1) len by (subst js_at_num_nat) (simp_all add: js_at_def)
  have some: "js_at_num s (fl (real m)) = Some (s ! m)"
    using m53 n len by (subst js_at_num_nat) (simp_all add: js_at_def m_def)
  show ?thesis
    unfolding getPercentile_def Let_def s_def [symmetric] len pos base rest up none some
    by (simp add: m_def)
qed

lemma interpolate_at_zero:
  assumes "a \<noteq> NaN" and "b \<noteq> NaN" and "level a \<le> level b"
  shows "js_add a (js_mul (fl 0) (js_sub b a)) = (if js_isFinite (js_sub b a) then a else NaN)"
proof (cases "js_sub b a")
  case (Num d)
  then obtain a' where a: "a = Num a'"
    using assms(1,2) by (cases a; cases b) (simp_all add: js_sub_def)
  with Num show ?thesis
    by (simp add: js_isFinite_def mul_zero_Num add_zero_Num)
next
  case PInf
  then show ?thesis by (simp add: js_isFinite_def fl_zero)
next
  case NInf
  then show ?thesis by (simp add: js_isFinite_def fl_zero)
next
  case NaN
  then show ?thesis by (simp add: js_isFinite_def)
qed

text \<open>
  C6, as stated, fails: the percentile at 0 need not be the minimum. On
  \<open>[-2\<^sup>1\<^sup>0\<^sup>2\<^sup>3, 2\<^sup>1\<^sup>0\<^sup>2\<^sup>3]\<close> the interpolation computes \<open>0 * (sorted[1] - sorted[0])\<close>, the
  difference overflows to \<open>Infinity\<close>, and the routine returns \<open>NaN\<close>; the minimum is
  \<open>-2\<^sup>1\<^sup>0\<^sup>2\<^sup>3\<close>.
\<close>

theorem percentile_zero_overflow:
  "getPercentile (map fl [- huge, huge]) (fl 0) = Some NaN \<and>
   fl (- huge) \<noteq> NaN"
proof (intro conjI)
  have s: "sort_ascending (map fl [- huge, huge]) = map fl [- huge, huge]"
    by (simp add: sort_ascending_def sort_by_def lit_simps fl_minus_huge_twice)
  have one: "fl 1 = fl (real (1::nat))" and zero: "fl 0 = fl (real (0::nat))"
    by simp_all
  have at1: "js_at_num [fl (- huge), fl huge] (fl 1) = Some (fl huge)"
    unfolding one by (subst js_at_num_nat) (simp_all add: js_at_def)
  have at0: "js_at_num [fl (- huge), fl huge] (fl 0) = Some (fl (- huge))"
    unfolding zero by (subst js_at_num_nat) (simp_all add: js_at_def)
  show "getPercentile (map fl [- huge, huge]) (fl 0) = Some NaN"
    unfolding getPercentile_def Let_def s
    by (simp add: lit_simps at1 at0 to_number_def fl_huge_twice)
  show "fl (- huge) \<noteq> NaN" by simp
qed

text \<open>
  C6, amended. On every non-empty series without \<open>NaN\<close> (of fewer than \<open>2\<^sup>5\<^sup>3\<close>
  elements) the percentile at 1 is the maximum of the series: an element of the series that
  no element exceeds. The percentile at 0 is the minimum of the series when the series has
  one element or the difference between its second smallest element and its minimum is a
  finite number; otherwise it is \<open>NaN\<close>.
\<close>

theorem percentile_max_min:
  assumes "xs \<noteq> []" and "NaN \<notin> set xs" and "length xs < 2 ^ 53"
  shows "\<exists>lo hi. lo \<in> set xs \<and> hi \<in> set xs \<and> (\<forall>x\<in>set xs. js_le lo x \<and> js_le x hi) \<and>
           getPercentile xs (fl 1) = Some hi \<and>
           getPercentile xs (fl 0) =
             Some (if length xs = 1 \<or> js_isFinite (js_sub (sort_key level xs ! 1) lo)
                   then lo else NaN)"
proof -
  define s where "s = sort_key level xs"
  have srt: "sort_ascending xs = s"
    using assms(2) by (simp add: s_def sort_ascending_level)
  have set: "set s = set xs" and len: "length s = length xs"
    by (simp_all add: s_def)
  have sorted: "sorted (map level s)"
    by (simp add: s_def)
  have n: "0 < length s" using assms(1) len by simp
  have nn: "s ! i \<noteq> NaN" if "i < length s" for i
    using that assms(2) set nth_mem [of i s] by metis
  have mono: "level (s ! i) \<le> level (s ! j)" if "i \<le> j" "j < length s" for i j
    using sorted_nth_mono [OF sorted, of i j] that by simp
  have lo: "js_le (s ! 0) x" if "x \<in> set xs" for x
  proof -
    from that have "x \<in> set s" by (simp add: set)
    then obtain i where i: "i < length s" "s ! i = x"
      by (auto simp: in_set_conv_nth)
    then show ?thesis
      using mono [of 0 i] nn [of 0] nn [of i] n by (simp add: le_level)
  qed
  have hi: "js_le x (s ! (length xs - 1))" if "x \<in> set xs" for x
  proof -
    from that have "x \<in> set s" by (simp add: set)
    then obtain i where i: "i < length s" "s ! i = x"
      by (auto simp: in_set_conv_nth)
    then show ?thesis
      using mono [of i "length xs - 1"] nn [of "length xs - 1"] nn [of i] n len
      by (simp add: le_level)
  qed
  have one: "getPercentile xs (fl 1) = Some (s ! (length xs - 1))"
    using percentile_one [OF assms(3,1)] by (simp add: srt)
  have zero: "getPercentile xs (fl 0) =
      Some (if length xs = 1 \<or> js_isFinite (js_sub (s ! 1) (s ! 0)) then s ! 0 else NaN)"
  proof (cases "length xs = 1")
    case True
    then show ?thesis
      using percentile_zero [OF assms(3,1)] by (simp add: srt)
  next
    case False
    with n len have two: "1 < length s" by linarith
    have "js_add (s ! 0) (js_mul (fl 0) (js_sub (s ! 1) (s ! 0))) =
        (if js_isFinite (js_sub (s ! 1) (s ! 0)) then s ! 0 else NaN)"
      using two by (intro interpolate_at_zero nn mono) auto
    then show ?thesis
      using percentile_zero [OF assms(3,1)] False by (simp add: srt)
  qed
  have "s ! 0 \<in> set xs" "s ! (length xs - 1) \<in> set xs"
    using n len set nth_mem [of 0 s] nth_mem [of "length xs - 1" s] by auto
  with lo hi one zero show ?thesis
    unfolding s_def by blast
qed

theorem percentile_max_min_witness:
  "map fl [3, 1, 2] \<noteq> [] \<and> NaN \<notin> set (map fl [3, 1, 2]) \<and>
   length (map fl [3, 1, 2]) < 2 ^ 53 \<and>
   (\<exists>lo hi. lo \<in> set (map fl [3, 1, 2]) \<and> hi \<in> set (map fl [3, 1, 2]) \<and>
      (\<forall>x\<in>set (map fl [3, 1, 2]). js_le lo x \<and> js_le x hi) \<and>
      getPercentile (map fl [3, 1, 2]) (fl 1) = Some hi \<and>
      getPercentile (map fl [3, 1, 2]) (fl 0) =
        Some (if length (map fl [3, 1, 2]) = 1 \<or>
                 js_isFinite (js_sub (sort_key level (map fl [3, 1, 2]) ! 1) lo)
              then lo else NaN)) \<and>
   sort_key level (map fl [3, 1, 2]) = map fl [1, 2, 3] \<and>
   js_isFinite (js_sub (fl 2) (fl 1))"
proof -
  have a: "map fl [3, 1, 2] \<noteq> []" by simp
  have b: "NaN \<notin> set (map fl [3, 1, 2])"
    by (simp add: fl_not_NaN [THEN not_sym])
  have c: "length (map fl [3, 1, 2]) < 2 ^ 53" by simp
  have l: "level (fl 1) = 1" "level (fl 2) = 2" "level (fl 3) = 3"
    by (simp_all add: level_def fl_exact val_dbl)
  have d: "sort_key level (map fl [3, 1, 2]) = map fl [1, 2, 3]"
    by (simp add: l)
  have "js_sub (fl 2) (fl 1) = fl 1"
    by (simp add: lit_sub)
  then have e: "js_isFinite (js_sub (fl 2) (fl 1))"
    by (simp add: js_isFinite_def fl_exact)
  show ?thesis
    by (intro conjI a b c d e percentile_max_min [OF a b c])
qed

text \<open>
  C10. On a series of a single element \<open>x\<close> and every \<open>p\<close> in \<open>[0, 1]\<close> the percentile
  routine returns \<open>x\<close>: the rank is 0, \<open>sorted[1]\<close> is undefined, and the routine returns
  \<open>sorted[0]\<close> without interpolating.
\<close>

theorem percentile_singleton:
  "0 \<le> val p \<Longrightarrow> val p \<le> 1 \<Longrightarrow> getPercentile [x] (Num p) = Some x"
proof -
  have one: "fl 1 = fl (real (1::nat))" and zero: "fl 0 = fl (real (0::nat))"
    by simp_all
  have srt: "sort_ascending [x] = [x]"
    by (simp add: sort_ascending_def sort_by_def)
  have pos: "js_mul (js_sub (fl (real (length [x]))) (fl 1)) (Num p) = fl 0"
    by (simp add: lit_sub) (simp add: fl_zero)
  have nxt: "js_at_num [x] (fl 1) = None"
    unfolding one by (subst js_at_num_nat) (simp_all add: js_at_def)
  have cur: "js_at_num [x] (fl 0) = Some x"
    unfolding zero by (subst js_at_num_nat) (simp_all add: js_at_def)
  show ?thesis
    unfolding getPercentile_def Let_def srt pos
    by (simp add: lit_floor lit_add nxt cur)
qed

theorem percentile_singleton_witness:
  "0 \<le> val (dbl (1 / 4)) \<and> val (dbl (1 / 4)) \<le> 1 \<and>
   getPercentile [fl 7] (Num (dbl (1 / 4))) = Some (fl 7)"
proof -
  have a: "0 \<le> val (dbl (1 / 4))" by (simp add: val_dbl)
  have b: "val (dbl (1 / 4)) \<le> 1" by (simp add: val_dbl)
  show ?thesis
    by (intro conjI a b percentile_singleton [OF a b])
qed

section \<open>Properties of the relative strength index, the Gini coefficient and the regression\<close>

text \<open>
  C1. The routine does not keep its result in \<open>[0, 100]\<close>. The first loop subtracts
  \<open>|diff|\<close> from \<open>losses\<close>, so the seeded average loss is negative whenever the first
  \<open>period\<close> differences contain a fall. On \<open>[1, 3, 2]\<close> with period 2 the average gain is
  1, the average loss is \<open>-1/2\<close>, and the result is 200.
\<close>

theorem rsi_above_100: "rsi (map fl [1, 3, 2]) 2 = fl 200"
  by (simp add: rsi_def rsi_seed_step_def rsi_diff_def js_at_def to_number_def lit_simps
      eval_nat_numeral)

text \<open>
  C3. On the all-zero array \<open>[0, 0]\<close> the sum of the weights is zero, the quotient
  \<open>sumNom / sumDen\<close> is \<open>0 / 0\<close>, and the routine returns \<open>NaN\<close>, not 0. Only the
  arrays of fewer than two entries are guarded (lemma \<open>calculateGini_short\<close>); every
  all-zero array of two or more entries gives \<open>NaN\<close> (lemma \<open>calculateGini_all_zero\<close>).
\<close>

theorem gini_all_zero_is_NaN: "calculateGini [fl 0, fl 0] = NaN"
  by (simp add: calculateGini_def gini_of_sorted_def gini_step_def sort_ascending_def
      sort_by_def js_at_def to_number_def lit_simps lit_div_zero eval_nat_numeral)

lemma calculateGini_short: "length w < 2 \<Longrightarrow> calculateGini w = fl 0"
  by (simp add: calculateGini_def)

lemma mul_by_zero_cases: "js_mul m (fl 0) = fl 0 \<or> js_mul m (fl 0) = NaN"
  by (cases m) (simp_all add: fl_zero)

lemma add_zero_zero: "js_add (fl 0) (fl 0) = fl 0"
  by (simp add: lit_add)

lemma gini_sums_all_zero:
  "\<forall>i\<in>set is. 1 \<le> i \<and> i \<le> n \<Longrightarrow> x = fl 0 \<or> x = NaN \<Longrightarrow>
   \<exists>y. (y = fl 0 \<or> y = NaN) \<and>
       fold (gini_step n (replicate n (fl 0))) is (x, fl 0) = (y, fl 0)"
proof (induction "is" arbitrary: x)
  case Nil
  then show ?case by simp
next
  case (Cons i "is")
  have i: "1 \<le> i" "i \<le> n" using Cons.prems(1) by simp_all
  have at: "to_number (js_at (replicate n (fl 0)) (i - Suc 0)) = fl 0"
    using i by (cases i) (simp_all add: js_at_def to_number_def)
  define m where "m = js_sub (js_add (fl (real n)) (fl 1)) (fl (real i))"
  define x' where "x' = js_add x (js_mul m (fl 0))"
  have x': "x' = fl 0 \<or> x' = NaN"
    using Cons.prems(2) mul_by_zero_cases [of m] unfolding x'_def
    by (auto simp: add_zero_zero)
  have step: "gini_step n (replicate n (fl 0)) i (x, fl 0) = (x', fl 0)"
    by (simp add: gini_step_def at x'_def m_def add_zero_zero)
  have "\<forall>i\<in>set is. 1 \<le> i \<and> i \<le> n" using Cons.prems(1) by simp
  from Cons.IH [OF this x'] show ?case
    by (simp add: step)
qed

lemma sort_ascending_zeros: "sort_ascending (replicate n (fl 0)) = replicate n (fl 0)"
proof -
  have "sort (replicate n (dbl 0)) = replicate n (dbl 0)"
    by (simp add: sort_key_id_if_sorted)
  with sort_ascending_Num [of "replicate n (dbl 0)"] show ?thesis
    by (simp add: fl_zero)
qed

lemma calculateGini_all_zero: "2 \<le> n \<Longrightarrow> calculateGini (replicate n (fl 0)) = NaN"
proof -
  assume n: "2 \<le> n"
  have "\<forall>i\<in>set [1 ..< Suc n]. 1 \<le> i \<and> i \<le> n" by auto
  from gini_sums_all_zero [OF this, of "fl 0"]
  obtain y where y: "y = fl 0 \<or> y = NaN"
    and f: "fold (gini_step n (replicate n (fl 0))) [1 ..< Suc n] (fl 0, fl 0) = (y, fl 0)"
    by blast
  have q: "js_div y (fl 0) = NaN"
    using y by (auto simp: lit_div_zero)
  have "gini_of_sorted n (replicate n (fl 0)) = NaN"
    unfolding gini_of_sorted_def f by (simp add: q js_sub_def)
  then show ?thesis
    using n by (simp add: calculateGini_def Let_def sort_ascending_zeros)
qed

text \<open>
  C4, as stated, fails: on the empty series the predictor does not throw. It returns a
  record whose \<open>nextValue\<close> is \<open>NaN\<close>.
\<close>

theorem linearPredict_empty_returns:
  "\<not> throws (linearPredict []) \<and>
   linearPredict [] = Inr \<lparr>nextValue = NaN, confidence = ''STAGNANT''\<rparr>"
  by (simp add: linearPredict_def throws_def lit_simps lit_div_zero)

lemma add_zero_left: "js_add (fl 0) (Num a) = Num a"
  by (simp add: fl_zero)

lemma linearPredict_one:
  "linearPredict [x] = Inr \<lparr>nextValue = NaN, confidence = ''STAGNANT''\<rparr>"
proof -
  have at: "to_number (js_at [x] 0) = x"
    by (simp add: js_at_def to_number_def)
  define sumY where "sumY = js_add (fl 0) x"
  define sumXY where "sumXY = js_add (fl 0) (js_mul (fl 0) x)"
  have xy: "sumXY = fl 0 \<or> sumXY = NaN"
    unfolding sumXY_def by (cases x) (simp_all add: mul_zero_Num add_zero_zero fl_zero)
  have p: "js_mul (fl 0) sumY = fl 0 \<or> js_mul (fl 0) sumY = NaN"
    unfolding sumY_def by (cases x) (simp_all add: add_zero_left mul_zero_Num fl_zero)
  have one: "js_mul (fl 1) sumXY = sumXY"
    using xy by (auto simp: lit_mul)
  have num: "js_sub sumXY (js_mul (fl 0) sumY) = fl 0 \<or>
             js_sub sumXY (js_mul (fl 0) sumY) = NaN"
    using xy p by (auto simp: lit_sub)
  have den: "js_sub (js_mul (fl 1) (fl 0)) (js_mul (fl 0) (fl 0)) = fl 0"
    by (simp add: lit_mul lit_sub)
  have slope: "js_div (js_sub (js_mul (fl 1) sumXY) (js_mul (fl 0) sumY))
                 (js_sub (js_mul (fl 1) (fl 0)) (js_mul (fl 0) (fl 0))) = NaN"
    unfolding one den using num by (auto simp: lit_div_zero)
  have fold1: "fold (linear_step [x]) [0 ..< length [x]] (fl 0, fl 0, fl 0, fl 0) =
      (fl 0, sumY, sumXY, fl 0)"
    by (simp add: linear_step_def at sumY_def sumXY_def add_zero_zero lit_mul)
  show ?thesis
    unfolding linearPredict_def Let_def fold1
    by (simp add: slope js_gt_def)
qed

text \<open>
  C4, amended. On every series of fewer than two points the predictor returns normally:
  no error is raised, the slope is \<open>0 / 0\<close>, and the record returned has the label
  \<open>STAGNANT\<close> and a \<open>nextValue\<close> that is not a number.
\<close>

theorem linearPredict_short_series:
  "length data < 2 \<Longrightarrow>
     \<not> throws (linearPredict data) \<and>
     linearPredict data = Inr \<lparr>nextValue = NaN, confidence = ''STAGNANT''\<rparr>"
proof -
  assume "length data < 2"
  then consider "data = []" | x where "data = [x]"
    by (cases data) (auto simp: length_Suc_conv)
  then have "linearPredict data = Inr \<lparr>nextValue = NaN, confidence = ''STAGNANT''\<rparr>"
  proof cases
    case 1
    then show ?thesis
      by (simp add: linearPredict_def lit_simps lit_div_zero)
  next
    case 2
    then show ?thesis by (simp add: linearPredict_one)
  qed
  then show ?thesis by (simp add: throws_def)
qed

theorem linearPredict_short_series_witness:
  "length [fl 5] < 2 \<and> \<not> throws (linearPredict [fl 5]) \<and>
   linearPredict [fl 5] = Inr \<lparr>nextValue = NaN, confidence = ''STAGNANT''\<rparr>"
proof -
  have a: "length [fl 5] < 2" by simp
  show ?thesis
    by (intro conjI a linearPredict_short_series [OF a, THEN conjunct1]
          linearPredict_short_series [OF a, THEN conjunct2])
qed

lemma gini_h_value: "fst (calculateGini_h h a) = calculateGini (deref h a)"
  by (simp add: calculateGini_h_def calculateGini_def Let_def spread_copy_def
      sort_in_place_def deref_def)

lemma gini_h_store:
  "b < next_addr h \<Longrightarrow> arrays (snd (calculateGini_h h a)) b = arrays h b"
  by (simp add: calculateGini_h_def Let_def spread_copy_def sort_in_place_def)

lemma gini_finite_sorted:
  "calculateGini (map Num w) =
     (if length w < 2 then fl 0 else gini_of_sorted (length w) (map Num (sort w)))"
  by (simp add: calculateGini_def Let_def sort_ascending_Num)

text \<open>
  C9. The Gini routine gives the same result on a finite array and on every permutation
  of it. Called on an array held in the store, it returns that result and changes no
  array that existed before the call: the sort reorders the copy made by the spread, not
  the argument.
\<close>

theorem gini_permutation_invariant:
  assumes "mset w' = mset w"
  shows "calculateGini (map Num w') = calculateGini (map Num w) \<and>
         (arrays h a = Some (map Num w) \<longrightarrow>
            fst (calculateGini_h h a) = calculateGini (map Num w) \<and>
            (\<forall>b<next_addr h. arrays (snd (calculateGini_h h a)) b = arrays h b))"
proof -
  have "sort w' = sort w"
    using assms by (intro properties_for_sort) simp_all
  moreover have "length w' = length w"
    using assms by (rule mset_eq_length)
  ultimately have "calculateGini (map Num w') = calculateGini (map Num w)"
    by (simp add: gini_finite_sorted)
  moreover have "fst (calculateGini_h h a) = calculateGini (map Num w)"
    if "arrays h a = Some (map Num w)"
    using that by (simp add: gini_h_value deref_def)
  ultimately show ?thesis
    by (simp add: gini_h_store)
qed

theorem gini_permutation_invariant_witness:
  "mset [dbl 1, dbl 2, dbl 3] = mset [dbl 3, dbl 1, dbl 2] \<and>
   calculateGini (map Num [dbl 1, dbl 2, dbl 3]) = calculateGini (map Num [dbl 3, dbl 1, dbl 2]) \<and>
   arrays heap_example 0 = Some (map Num [dbl 3, dbl 1, dbl 2]) \<and>
   fst (calculateGini_h heap_example 0) = calculateGini (map Num [dbl 3, dbl 1, dbl 2]) \<and>
   arrays (snd (calculateGini_h heap_example 0)) 0 = arrays heap_example 0"
proof -
  have a: "mset [dbl 1, dbl 2, dbl 3] = mset [dbl 3, dbl 1, dbl 2]" by simp
  have b: "arrays heap_example 0 = Some (map Num [dbl 3, dbl 1, dbl 2])"
    by (simp add: heap_example_def fl_exact)
  have c: "(0::nat) < next_addr heap_example"
    by (simp add: heap_example_def)
  from gini_permutation_invariant [OF a, of heap_example 0] a b c
  show ?thesis by blast
qed

section \<open>Properties of the randomized routines\<close>

lemma gbm_step_eq:
  "gbm_step mu sigma dt i (path, cur, g) =
     (let x = js_mul cur
                (Math_exp (js_add (js_mul (js_sub mu (js_mul (js_mul (fl (1 / 2)) sigma) sigma)) dt)
                                  (js_mul (js_mul sigma (Math_sqrt dt))
                                          (js_sub (js_mul (Num (g 0)) (fl 2)) (fl 1)))))
      in (path @ [x], x, \<lambda>k. g (Suc k)))"
  by (simp add: gbm_step_def Math_random_def Let_def)

lemma gbm_fold_cong:
  "\<forall>k<length is. g k = g' k \<Longrightarrow>
   fst (fold (gbm_step mu sigma dt) is (path, cur, g)) =
   fst (fold (gbm_step mu sigma dt) is (path, cur, g'))"
proof (induction "is" arbitrary: path cur g g')
  case Nil
  then show ?case by simp
next
  case (Cons i "is")
  from Cons.prems have g0: "g 0 = g' 0" by auto
  from Cons.prems have rest: "\<forall>k<length is. g (Suc k) = g' (Suc k)" by auto
  show ?case
    using Cons.IH [of "\<lambda>k. g (Suc k)" "\<lambda>k. g' (Suc k)"] rest
    by (simp add: gbm_step_eq Let_def g0)
qed

lemma gbm_fold_rng:
  "snd (snd (fold (gbm_step mu sigma dt) is (path, cur, g))) = (\<lambda>k. g (k + length is))"
  by (induction "is" arbitrary: path cur g) (simp_all add: gbm_step_eq Let_def)

lemma mc_day_eq:
  "mc_day volatility d (price, g) =
     (js_mul price (js_add (fl 1)
                      (js_mul (js_mul (js_sub (Num (g 0)) (fl (1 / 2))) (fl 2)) volatility)),
      \<lambda>k. g (Suc k))"
  by (simp add: mc_day_def Math_random_def Let_def)

lemma mc_days_cong:
  "\<forall>k<length ds. g k = g' k \<Longrightarrow>
   fst (fold (mc_day volatility) ds (price, g)) = fst (fold (mc_day volatility) ds (price, g'))"
proof (induction ds arbitrary: price g g')
  case Nil
  then show ?case by simp
next
  case (Cons d ds)
  from Cons.prems have g0: "g 0 = g' 0" by auto
  from Cons.prems have rest: "\<forall>k<length ds. g (Suc k) = g' (Suc k)" by auto
  show ?case
    using Cons.IH [of "\<lambda>k. g (Suc k)" "\<lambda>k. g' (Suc k)"] rest
    by (simp add: mc_day_eq g0)
qed

lemma mc_days_rng:
  "snd (fold (mc_day volatility) ds (price, g)) = (\<lambda>k. g (k + length ds))"
  by (induction ds arbitrary: price g) (simp_all add: mc_day_eq)

lemma mc_trial_eq:
  "mc_trial startPrice days volatility i (endPrices, g) =
     (endPrices @ [fst (fold (mc_day volatility) [0 ..< days] (startPrice, g))],
      \<lambda>k. g (k + days))"
  using mc_days_rng [of volatility "[0 ..< days]" startPrice g]
  by (simp add: mc_trial_def split_beta Let_def)

lemma mc_trials_cong:
  "\<forall>k<length js * days. g k = g' k \<Longrightarrow>
   fst (fold (mc_trial startPrice days volatility) js (endPrices, g)) =
   fst (fold (mc_trial startPrice days volatility) js (endPrices, g'))"
proof (induction js arbitrary: endPrices g g')
  case Nil
  then show ?case by simp
next
  case (Cons j js)
  have first: "\<forall>k<length [0 ..< days]. g k = g' k"
    using Cons.prems by simp
  have rest: "\<forall>k<length js * days. g (k + days) = g' (k + days)"
    using Cons.prems by simp
  show ?case
    using Cons.IH [of "\<lambda>k. g (k + days)" "\<lambda>k. g' (k + days)"] rest
      mc_days_cong [OF first, of volatility startPrice]
    by (simp add: mc_trial_eq)
qed

lemma mc_trials_rng:
  "snd (fold (mc_trial startPrice days volatility) js (endPrices, g)) =
     (\<lambda>k. g (k + length js * days))"
  by (induction js arbitrary: endPrices g) (simp_all add: mc_trial_eq ac_simps)

text \<open>
  C7, amended. Neither routine takes a random source as a parameter; both call the
  generator of the runtime. What they return is fixed by their arguments and by the
  values the generator yields during the call: \<open>gbmPath\<close> makes \<open>steps\<close> draws and
  \<open>runMonteCarlo\<close> makes \<open>simulations * days\<close> draws, two runs with the same
  arguments whose generators agree on those draws return the same result, and each run
  leaves the generator advanced by that many draws.
\<close>

theorem randomized_output_fixed_by_draws:
  "((\<forall>k<steps. g k = g' k) \<longrightarrow>
      fst (gbmPath S0 mu sigma T steps g) = fst (gbmPath S0 mu sigma T steps g')) \<and>
   snd (gbmPath S0 mu sigma T steps g) = (\<lambda>k. g (k + steps)) \<and>
   ((\<forall>k<simulations * days. g k = g' k) \<longrightarrow>
      fst (runMonteCarlo startPrice days volatility simulations g) =
      fst (runMonteCarlo startPrice days volatility simulations g')) \<and>
   snd (runMonteCarlo startPrice days volatility simulations g) =
      (\<lambda>k. g (k + simulations * days))"
proof (intro conjI impI)
  assume "\<forall>k<steps. g k = g' k"
  then have "\<forall>k<length [0 ..< steps]. g k = g' k" by simp
  from gbm_fold_cong [OF this]
  show "fst (gbmPath S0 mu sigma T steps g) = fst (gbmPath S0 mu sigma T steps g')"
    by (simp add: gbmPath_def split_beta Let_def)
next
  show "snd (gbmPath S0 mu sigma T steps g) = (\<lambda>k. g (k + steps))"
    using gbm_fold_rng [of mu sigma "js_div T (fl (real steps))" "[0 ..< steps]" "[S0]" S0 g]
    by (simp add: gbmPath_def split_beta Let_def)
next
  assume "\<forall>k<simulations * days. g k = g' k"
  then have "\<forall>k<length [0 ..< simulations] * days. g k = g' k" by simp
  from mc_trials_cong [OF this, of startPrice volatility "[]"]
  have eq: "fst (fold (mc_trial startPrice days volatility) [0 ..< simulations] ([], g)) =
            fst (fold (mc_trial startPrice days volatility) [0 ..< simulations] ([], g'))" .
  show "fst (runMonteCarlo startPrice days volatility simulations g) =
        fst (runMonteCarlo startPrice days volatility simulations g')"
    unfolding runMonteCarlo_def split_beta Let_def fst_conv eq by (rule refl)
next
  show "snd (runMonteCarlo startPrice days volatility simulations g) =
        (\<lambda>k. g (k + simulations * days))"
    using mc_trials_rng [of startPrice days volatility "[0 ..< simulations]" "[]" g]
    by (simp add: runMonteCarlo_def split_beta Let_def)
qed

lemma exp_minus_half_ge: "1 / 2 \<le> exp (- (1 / 2) :: real)"
  using exp_ge_add_one_self [of "- (1 / 2) :: real"] by simp


lemma exp_minus_three_halves_le: "exp (- (3 / 2) :: real) \<le> 7 / 16"
proof -
  have "5 / 2 \<le> exp (3 / 2 :: real)"
    using exp_ge_add_one_self [of "3 / 2 :: real"] by simp
  then have "inverse (exp (3 / 2 :: real)) \<le> inverse (5 / 2)"
    by (intro le_imp_inverse_le) simp_all
  then show ?thesis
    by (simp add: exp_minus)
qed

lemma is_double_sixteenth [simp]: "(numeral w :: int) < 2 ^ 53 \<Longrightarrow> is_double (numeral w / 16)"
  using is_double_dyadic [of "numeral w" 4] by simp

lemma Num_rng_const: "is_double u \<Longrightarrow> Num (rng_const u k) = fl u"
  by (simp add: rng_const_def fl_exact)

lemma mul_one_left: "js_mul (fl 1) (fl y) = fl y"
proof -
  have n: "js_mul (fl 1) (Num d) = Num d" for d
    by (simp add: fl_exact val_dbl)
  have p: "js_mul (fl 1) PInf = PInf" "js_mul (fl 1) NInf = NInf"
    by (simp_all add: fl_exact val_dbl)
  show ?thesis
    by (cases y rule: fl_cases) (simp_all only: n p)
qed

text \<open>
  C7, as stated, fails: the five arguments of \<open>gbmPath\<close> do not determine its result.
  Two runs with the same arguments return different paths when the generator of the
  runtime is in different states (here it returns 0 in one run and \<open>1/2\<close> in the other).
\<close>

theorem gbmPath_depends_on_generator:
  "fst (gbmPath (fl 1) (fl 0) (fl 1) (fl 1) 1 (rng_const 0)) \<noteq>
   fst (gbmPath (fl 1) (fl 0) (fl 1) (fl 1) 1 (rng_const (1 / 2)))"
proof -
  have a: "fst (gbmPath (fl 1) (fl 0) (fl 1) (fl 1) 1 (rng_const 0)) =
      [fl 1, fl (exp (- (3 / 2)))]"
    by (simp add: gbmPath_def gbm_step_eq Let_def Num_rng_const lit_simps mul_one_left)
  have b: "fst (gbmPath (fl 1) (fl 0) (fl 1) (fl 1) 1 (rng_const (1 / 2))) =
      [fl 1, fl (exp (- (1 / 2)))]"
    by (simp add: gbmPath_def gbm_step_eq Let_def Num_rng_const lit_simps mul_one_left)
  have "fl (exp (- (3 / 2))) \<noteq> fl (exp (- (1 / 2)))"
    by (rule fl_separated [OF exp_minus_three_halves_le _ exp_minus_half_ge]) simp_all
  then show ?thesis
    unfolding a b by simp
qed

theorem randomized_output_fixed_by_draws_witness:
  "rng_then (1 / 2) (rng_const 0) 0 = rng_then (1 / 2) (rng_const (3 / 4)) 0 \<and>
   rng_then (1 / 2) (rng_const 0) 1 \<noteq> rng_then (1 / 2) (rng_const (3 / 4)) 1 \<and>
   fst (gbmPath (fl 100) (fl 0) (fl 1) (fl 1) 1 (rng_then (1 / 2) (rng_const 0))) =
   fst (gbmPath (fl 100) (fl 0) (fl 1) (fl 1) 1 (rng_then (1 / 2) (rng_const (3 / 4)))) \<and>
   fst (runMonteCarlo (fl 100) 1 (fl (1 / 10)) 1 (rng_then (1 / 2) (rng_const 0))) =
   fst (runMonteCarlo (fl 100) 1 (fl (1 / 10)) 1 (rng_then (1 / 2) (rng_const (3 / 4))))"
proof -
  have a: "\<forall>k<(1::nat). rng_then (1 / 2) (rng_const 0) k = rng_then (1 / 2) (rng_const (3 / 4)) k"
    by (simp add: rng_then_def)
  have b: "\<forall>k<(1::nat) * 1. rng_then (1 / 2) (rng_const 0) k =
                              rng_then (1 / 2) (rng_const (3 / 4)) k"
    by (simp add: rng_then_def)
  have c: "rng_then (1 / 2) (rng_const 0) 0 = rng_then (1 / 2) (rng_const (3 / 4)) 0"
    by (simp add: rng_then_def)
  have d: "rng_then (1 / 2) (rng_const 0) 1 \<noteq> rng_then (1 / 2) (rng_const (3 / 4)) 1"
    by (simp add: rng_then_def rng_const_def dbl_inject)
  from a b c d
    randomized_output_fixed_by_draws [where steps = 1 and simulations = 1 and days = 1
      and g = "rng_then (1 / 2) (rng_const 0)" and g' = "rng_then (1 / 2) (rng_const (3 / 4))"
      and ?S0.0 = "fl 100" and mu = "fl 0" and sigma = "fl 1" and T = "fl 1"
      and startPrice = "fl 100" and volatility = "fl (1 / 10)"]
  show ?thesis by blast
qed





lemma exp_2000_ge: "2 ^ 1024 \<le> exp (2000 :: real)"
proof -
  have "(2::real) \<le> exp 1"
    using exp_ge_add_one_self [of "1 :: real"] by simp
  then have "(2::real) ^ 2000 \<le> exp 1 ^ 2000"
    by (intro power_mono) simp_all
  also have "exp (1::real) ^ 2000 = exp 2000"
    using exp_of_nat_mult [of 2000 "1 :: real"] by simp
  finally have "(2::real) ^ 2000 \<le> exp 2000" .
  moreover have "(2::real) ^ 1024 \<le> 2 ^ 2000"
    by (intro power_increasing) simp_all
  ultimately show ?thesis by linarith
qed

lemma gbmPath_overflow:
  "fst (gbmPath (fl 1) (fl 2000) (fl 0) (fl 1) 1 (rng_const (1 / 2))) = [fl 1, PInf]"
proof -
  have e: "fl (exp 2000) = PInf"
    by (rule fl_le_PInf) (rule exp_2000_ge)
  show ?thesis
    by (simp add: gbmPath_def gbm_step_eq Let_def Num_rng_const lit_simps e)
qed

end
